theory Spec2Isabelle
  imports Main
begin

section \<open>Report actions: the data\<close>

text \<open>
  The module \<^verbatim>\<open>src/libs/actions/ReportActions.js\<close> keeps two process-wide objects,
  \<^verbatim>\<open>reportActionsMaxSequenceNumbers\<close> and \<^verbatim>\<open>reportActions\<close>, fills them from a store
  subscription, and answers queries from them.

  A report action is a JavaScript object; a property that is absent reads as
  \<^verbatim>\<open>undefined\<close>, which is \<open>None\<close> here. Sequence numbers are non-negative integers. The error
  payload is opaque to this module and is kept as a string.
\<close>

datatype 'a nullable = Null | Val 'a

record message_part =
  html :: "string option"

record report_action =
  sequenceNumber :: "nat option"
  actionName :: "string option"
  message :: "message_part list option"
  pendingAction :: "string nullable option"
  errors :: "string nullable option"
  isLoading :: "bool option"

text \<open>The object literal \<^verbatim>\<open>{}\<close> read as an action: every property absent.\<close>

definition no_fields :: report_action where
  "no_fields = \<lparr>sequenceNumber = None, actionName = None, message = None,
     pendingAction = None, errors = None, isLoading = None\<rparr>"

subsection \<open>JavaScript objects and the library calls the module makes\<close>

text \<open>
  A property name is the decimal string of a non-negative integer, \<open>Idx n\<close>, or another
  string, \<open>Name s\<close>. Of the former, those below \<open>2^32 - 1\<close> are array indices. An object
  is the list of its own properties in creation order, each name once. Enumeration
  (\<^verbatim>\<open>Object.keys\<close>, on which \<^verbatim>\<open>_.toArray\<close>, \<^verbatim>\<open>_.values\<close> and lodash's \<^verbatim>\<open>merge\<close> rest)
  visits the array indices in ascending order first and every other name, the larger
  numbers among them, in creation order after them.
\<close>

datatype key = Idx nat | Name string

definition is_array_index :: "nat \<Rightarrow> bool" where
  "is_array_index n = (int n < 4294967295)"

type_synonym 'v js_object = "(key \<times> 'v) list"

text \<open>\<^verbatim>\<open>object[k] = v\<close>: an existing property keeps its place, a new one is created last.\<close>

fun obj_set :: "key \<Rightarrow> 'v \<Rightarrow> 'v js_object \<Rightarrow> 'v js_object" where
  "obj_set k v [] = [(k, v)]"
| "obj_set k v ((k', v') # kvs) =
     (if k' = k then (k, v) # kvs else (k', v') # obj_set k v kvs)"

fun index_entries :: "'v js_object \<Rightarrow> (nat \<times> 'v) list" where
  "index_entries [] = []"
| "index_entries ((Idx i, v) # kvs) =
     (if is_array_index i then (i, v) # index_entries kvs else index_entries kvs)"
| "index_entries ((Name n, v) # kvs) = index_entries kvs"

fun name_entries :: "'v js_object \<Rightarrow> (key \<times> 'v) list" where
  "name_entries [] = []"
| "name_entries ((Idx i, v) # kvs) =
     (if is_array_index i then name_entries kvs else (Idx i, v) # name_entries kvs)"
| "name_entries ((Name n, v) # kvs) = (Name n, v) # name_entries kvs"

definition own_entries :: "'v js_object \<Rightarrow> (key \<times> 'v) list" where
  "own_entries obj =
     map (\<lambda>(i, v). (Idx i, v)) (sort_key fst (index_entries obj)) @ name_entries obj"

text \<open>\<^verbatim>\<open>_.toArray(obj)\<close> of an object: its values in enumeration order.\<close>

definition toArray :: "'v js_object \<Rightarrow> 'v list" where
  "toArray obj = map snd (own_entries obj)"

text \<open>
  \<^verbatim>\<open>_.indexBy(list, 'sequenceNumber')\<close>: a fresh object, each element stored under the
  string of its \<^verbatim>\<open>sequenceNumber\<close>, a later element replacing an earlier one of the same
  name. The string of \<^verbatim>\<open>undefined\<close> is the name \<^verbatim>\<open>"undefined"\<close>. Of \<^verbatim>\<open>undefined\<close> in place of
  the list, the result is the empty object.
\<close>

definition seq_key :: "report_action \<Rightarrow> key" where
  "seq_key a = (case sequenceNumber a of None \<Rightarrow> Name ''undefined'' | Some n \<Rightarrow> Idx n)"

definition indexBy :: "('a \<Rightarrow> key) \<Rightarrow> 'a list option \<Rightarrow> 'a js_object" where
  "indexBy f list =
     (case list of None \<Rightarrow> [] | Some xs \<Rightarrow> foldl (\<lambda>obj x. obj_set (f x) x obj) [] xs)"

text \<open>
  \<^verbatim>\<open>_.findLastIndex(array, predicate)\<close>: the loop
  \<^verbatim>\<open>for (index = length - 1; index >= 0; index--) if (predicate(array[index])) return index;\<close>
  and \<open>-1\<close> after it. \<open>findLastIndex_below array predicate n\<close> is the loop with \<open>n\<close>
  indices left to visit.
\<close>

fun findLastIndex_below :: "'a list \<Rightarrow> ('a \<Rightarrow> bool) \<Rightarrow> nat \<Rightarrow> int" where
  "findLastIndex_below array predicate 0 = - 1"
| "findLastIndex_below array predicate (Suc i) =
     (if predicate (array ! i) then int i else findLastIndex_below array predicate i)"

definition findLastIndex :: "'a list \<Rightarrow> ('a \<Rightarrow> bool) \<Rightarrow> int" where
  "findLastIndex array predicate = findLastIndex_below array predicate (length array)"

text \<open>\<^verbatim>\<open>array[i]\<close>: \<^verbatim>\<open>undefined\<close> outside the array, and so at index \<open>-1\<close>.\<close>

definition at_index :: "'a list \<Rightarrow> int \<Rightarrow> 'a option" where
  "at_index array i = (if 0 \<le> i \<and> i < int (length array) then Some (array ! nat i) else None)"

text \<open>\<^verbatim>\<open>_.first(array)\<close>, also of \<^verbatim>\<open>null\<close> in place of the array (the default the module
  passes to \<^verbatim>\<open>lodashGet(action, 'message', null)\<close>): \<^verbatim>\<open>undefined\<close> when there is no element.\<close>

definition first_of :: "'a list option \<Rightarrow> 'a option" where
  "first_of array = (case array of None \<Rightarrow> None | Some [] \<Rightarrow> None | Some (x # _) \<Rightarrow> Some x)"

text \<open>\<^verbatim>\<open>lodashGet(message, 'html', '')\<close> of a message part or of \<^verbatim>\<open>undefined\<close>.\<close>

definition get_html :: "message_part option \<Rightarrow> string" where
  "get_html part =
     (case part of None \<Rightarrow> ''''
      | Some p \<Rightarrow> (case html p of None \<Rightarrow> '''' | Some h \<Rightarrow> h))"

text \<open>\<^verbatim>\<open>_.isEmpty\<close> of a string: its length is zero.\<close>

definition isEmpty :: "string \<Rightarrow> bool" where
  "isEmpty str = (length str = 0)"

text \<open>\<^verbatim>\<open>lodashGet(actions, [i, 'message', 0, 'html'], '')\<close>: the default as soon as a step
  of the path reads \<^verbatim>\<open>undefined\<close>.\<close>

definition get_message_html :: "report_action list \<Rightarrow> int \<Rightarrow> string" where
  "get_message_html actions i =
     (case at_index actions i of None \<Rightarrow> ''''
      | Some a \<Rightarrow>
          (case message a of None \<Rightarrow> ''''
           | Some parts \<Rightarrow> get_html (at_index parts 0)))"

text \<open>The truth value JavaScript gives \<^verbatim>\<open>action.isLoading\<close>: absent is false.\<close>

definition truthy :: "bool option \<Rightarrow> bool" where
  "truthy b = (case b of None \<Rightarrow> False | Some v \<Rightarrow> v)"

text \<open>\<^verbatim>\<open>a <= n\<close> where \<open>a\<close> may be \<^verbatim>\<open>undefined\<close>: \<^verbatim>\<open>undefined\<close> converts to NaN and the
  comparison is false.\<close>

definition js_le :: "nat option \<Rightarrow> nat \<Rightarrow> bool" where
  "js_le a n = (case a of None \<Rightarrow> False | Some m \<Rightarrow> m \<le> n)"

subsection \<open>lodash's merge on actions\<close>

text \<open>
  \<^verbatim>\<open>lodashMerge(object, source1, source2)\<close> visits the properties of each source in
  enumeration order. A source value that is \<^verbatim>\<open>undefined\<close> leaves the destination's value;
  a number, string, boolean or \<^verbatim>\<open>null\<close> is assigned; a plain object is merged property by
  property into the destination's object, or into a fresh object when the destination has
  none there; an array is merged index by index into the destination's array, or into a
  fresh array when the destination has none there.
\<close>

definition merge_part :: "message_part \<Rightarrow> message_part \<Rightarrow> message_part" where
  "merge_part d p = (case html p of None \<Rightarrow> d | Some h \<Rightarrow> d\<lparr>html := Some h\<rparr>)"

fun merge_parts :: "message_part list \<Rightarrow> message_part list \<Rightarrow> message_part list" where
  "merge_parts ds [] = ds"
| "merge_parts [] (p # ps) = p # ps"
| "merge_parts (d # ds) (p # ps) = merge_part d p # merge_parts ds ps"

definition merge_action :: "report_action \<Rightarrow> report_action \<Rightarrow> report_action" where
  "merge_action d p =
     \<lparr>sequenceNumber = (case sequenceNumber p of None \<Rightarrow> sequenceNumber d | Some n \<Rightarrow> Some n),
      actionName = (case actionName p of None \<Rightarrow> actionName d | Some n \<Rightarrow> Some n),
      message =
        (case message p of None \<Rightarrow> message d
         | Some ps \<Rightarrow> Some (merge_parts (case message d of None \<Rightarrow> [] | Some ds \<Rightarrow> ds) ps)),
      pendingAction = (case pendingAction p of None \<Rightarrow> pendingAction d | Some v \<Rightarrow> Some v),
      errors = (case errors p of None \<Rightarrow> errors d | Some v \<Rightarrow> Some v),
      isLoading = (case isLoading p of None \<Rightarrow> isLoading d | Some v \<Rightarrow> Some v)\<rparr>"

definition merge_entry :: "report_action js_object \<Rightarrow> key \<times> report_action \<Rightarrow> report_action js_object" where
  "merge_entry object kp =
     (case map_of object (fst kp) of
        None \<Rightarrow> obj_set (fst kp) (snd kp) object
      | Some d \<Rightarrow> obj_set (fst kp) (merge_action d (snd kp)) object)"

definition lodashMerge ::
  "report_action js_object \<Rightarrow> report_action js_object \<Rightarrow> report_action js_object \<Rightarrow>
   report_action js_object" where
  "lodashMerge object source1 source2 =
     foldl merge_entry (foldl merge_entry object (own_entries source1)) (own_entries source2)"

section \<open>The module\<close>

record state =
  reportActionsMaxSequenceNumbers :: "string \<rightharpoonup> nat"
  reportActions :: "string \<rightharpoonup> report_action list"

text \<open>
  The callback given to \<^verbatim>\<open>Onyx.connect\<close>. \<open>actions\<close> is the delivered collection or
  \<open>None\<close> for \<^verbatim>\<open>undefined\<close>/\<^verbatim>\<open>null\<close>; \<open>key\<close> is the store key, \<open>None\<close> for
  \<^verbatim>\<open>undefined\<close>. \<^verbatim>\<open>!key\<close> holds of \<^verbatim>\<open>undefined\<close> and of the empty string.
  \<^verbatim>\<open>CollectionUtils.extractCollectionItemID\<close> is a parameter.
\<close>

definition connect_callback ::
  "(string \<Rightarrow> string) \<Rightarrow> report_action js_object option \<Rightarrow> string option \<Rightarrow> state \<Rightarrow> state" where
  "connect_callback extractCollectionItemID actions key s =
     (case (key, actions) of
        (Some k, Some acts) \<Rightarrow>
          if k = [] then s
          else
            let reportID = extractCollectionItemID k;
                actionsArray = toArray acts;
                s1 = s\<lparr>reportActions := (reportActions s)(reportID \<mapsto> actionsArray)\<rparr>;
                mostRecentNonLoadingActionIndex =
                  findLastIndex actionsArray (\<lambda>action. \<not> truthy (isLoading action));
                mostRecentAction = at_index actionsArray mostRecentNonLoadingActionIndex
            in (case mostRecentAction of
                  None \<Rightarrow> s1
                | Some a \<Rightarrow>
                    (case sequenceNumber a of
                       None \<Rightarrow> s1
                     | Some n \<Rightarrow>
                         s1\<lparr>reportActionsMaxSequenceNumbers :=
                              (reportActionsMaxSequenceNumbers s1)(reportID \<mapsto> n)\<rparr>))
      | _ \<Rightarrow> s)"

text \<open>
  The function given to \<^verbatim>\<open>_.reduce\<close> in \<^verbatim>\<open>getDeletedCommentsCount\<close>.
  \<open>ADDCOMMENT\<close> stands for \<^verbatim>\<open>CONST.REPORT.ACTIONS.TYPE.ADDCOMMENT\<close>.
\<close>

definition count_deleted :: "string \<Rightarrow> nat \<Rightarrow> nat \<Rightarrow> report_action \<Rightarrow> nat" where
  "count_deleted ADDCOMMENT seqNum numDeletedMessages action =
     (if actionName action \<noteq> Some ADDCOMMENT \<or> js_le (sequenceNumber action) seqNum
      then numDeletedMessages
      else
        let part = first_of (message action);
            html_text = get_html part
        in if isEmpty html_text then numDeletedMessages + 1 else numDeletedMessages)"

definition getDeletedCommentsCount :: "string \<Rightarrow> state \<Rightarrow> string \<Rightarrow> nat \<Rightarrow> nat" where
  "getDeletedCommentsCount ADDCOMMENT s reportID seqNum =
     (case reportActions s reportID of
        None \<Rightarrow> 0
      | Some acts \<Rightarrow> foldl (count_deleted ADDCOMMENT seqNum) 0 acts)"

text \<open>
  The two queries over the merged actions. \<^verbatim>\<open>ReportActionsUtils.isDeletedAction\<close>,
  \<^verbatim>\<open>ExpensiMark.htmlToText\<close> and \<^verbatim>\<open>ReportUtils.formatReportLastMessageText\<close> are
  parameters. An omitted \<^verbatim>\<open>actionsToMerge\<close> is the empty object \<open>[]\<close>.
\<close>

definition getLastVisibleMessageText ::
  "(report_action \<Rightarrow> bool) \<Rightarrow> (string \<Rightarrow> string) \<Rightarrow> (string \<Rightarrow> string) \<Rightarrow>
   state \<Rightarrow> string \<Rightarrow> report_action js_object \<Rightarrow> string" where
  "getLastVisibleMessageText isDeletedAction htmlToText formatReportLastMessageText
     s reportID actionsToMerge =
     (let existingReportActions = indexBy seq_key (reportActions s reportID);
          actions = toArray (lodashMerge [] existingReportActions actionsToMerge);
          lastMessageIndex = findLastIndex actions (\<lambda>action. \<not> isDeletedAction action);
          htmlText = get_message_html actions lastMessageIndex;
          messageText = htmlToText htmlText
      in formatReportLastMessageText messageText)"

definition getLastVisibleReportAction ::
  "(report_action \<Rightarrow> bool) \<Rightarrow> state \<Rightarrow> string \<Rightarrow> report_action js_object \<Rightarrow>
   report_action option" where
  "getLastVisibleReportAction isDeletedAction s reportID actionsToMerge =
     (let existingReportActions = indexBy seq_key (reportActions s reportID);
          actions = toArray (lodashMerge [] existingReportActions actionsToMerge);
          lastVisibleReportActionIndex =
            findLastIndex actions (\<lambda>action. \<not> isDeletedAction action)
      in at_index actions lastVisibleReportActionIndex)"

text \<open>
  The two mutations call \<^verbatim>\<open>Onyx.merge(key, patch)\<close> and touch nothing else; each is
  modelled by the list of store calls it issues. A patch maps a property name to
  \<^verbatim>\<open>null\<close> or to a partial action. \<open>REPORT_ACTIONS\<close> stands for
  \<^verbatim>\<open>ONYXKEYS.COLLECTION.REPORT_ACTIONS\<close> and \<open>ADD\<close> for
  \<^verbatim>\<open>CONST.RED_BRICK_ROAD_PENDING_ACTION.ADD\<close>.
\<close>

datatype patch_value = PNull | PAction report_action

datatype store_call = OnyxMerge string "patch_value js_object"

definition updateReportActionMessage ::
  "string \<Rightarrow> string \<Rightarrow> nat \<Rightarrow> message_part \<Rightarrow> store_call list" where
  "updateReportActionMessage REPORT_ACTIONS reportID seqNum msg =
     (let actionToMerge = obj_set (Idx seqNum) (PAction (no_fields\<lparr>message := Some [msg]\<rparr>)) []
      in [OnyxMerge (REPORT_ACTIONS @ reportID) actionToMerge])"

definition deleteOptimisticReportAction ::
  "string \<Rightarrow> string \<Rightarrow> string \<Rightarrow> nat \<Rightarrow> string nullable option \<Rightarrow> store_call list" where
  "deleteOptimisticReportAction REPORT_ACTIONS ADD reportID seqNum pending =
     (if pending = Some (Val ADD)
      then [OnyxMerge (REPORT_ACTIONS @ reportID) [(Idx seqNum, PNull)]]
      else [OnyxMerge (REPORT_ACTIONS @ reportID)
              [(Idx seqNum, PAction (no_fields\<lparr>pendingAction := Some Null, errors := Some Null\<rparr>))]])"

section \<open>The queries over object references\<close>

text \<open>
  \<^verbatim>\<open>reportActions[reportID]\<close> is an array of references to action objects, and
  \<^verbatim>\<open>_.indexBy\<close> puts those same references into the object it builds. Whether a query
  can change the mirror therefore depends on which objects lodash's \<^verbatim>\<open>merge\<close> writes
  to. Here the objects live in a heap, a reference is an index into it, and a fresh
  object is allocated at its end.

  \<^verbatim>\<open>merge\<close> reads its sources and writes only to its destination: a property the
  destination lacks receives a fresh object, filled from the source's; a property the
  destination has is merged into the destination's own object, in place. The first
  source of the queries, \<open>existingReportActions\<close>, holds references; the second, the
  caller's patch, is only read and is kept as a value. The message array of an action and
  its parts stay inside the action's value: \<^verbatim>\<open>merge\<close> never assigns a source's array or
  plain object to the destination, it fills a fresh array or object from it, so the
  arrays and parts of a fresh action are fresh too and only the action objects need an
  identity here.
\<close>

type_synonym ref = nat

record ref_state =
  rs_index :: "string \<rightharpoonup> nat"
  rs_mirror :: "string \<rightharpoonup> ref list"
  rs_heap :: "report_action list"

definition merge_into ::
  "ref js_object \<times> report_action list \<Rightarrow> key \<times> report_action \<Rightarrow>
   ref js_object \<times> report_action list" where
  "merge_into oh kp =
     (case map_of (fst oh) (fst kp) of
        None \<Rightarrow> (obj_set (fst kp) (length (snd oh)) (fst oh), snd oh @ [snd kp])
      | Some d \<Rightarrow> (fst oh, (snd oh)[d := merge_action (snd oh ! d) (snd kp)]))"

definition merge_from ::
  "ref js_object \<times> report_action list \<Rightarrow> key \<times> ref \<Rightarrow>
   ref js_object \<times> report_action list" where
  "merge_from oh ka = merge_into oh (fst ka, snd oh ! snd ka)"

definition lodashMerge_refs ::
  "ref js_object \<Rightarrow> ref js_object \<Rightarrow> report_action js_object \<Rightarrow> report_action list \<Rightarrow>
   ref js_object \<times> report_action list" where
  "lodashMerge_refs object source1 source2 h =
     foldl merge_into (foldl merge_from (object, h) (own_entries source1)) (own_entries source2)"

definition getLastVisibleMessageText_refs ::
  "(report_action \<Rightarrow> bool) \<Rightarrow> (string \<Rightarrow> string) \<Rightarrow> (string \<Rightarrow> string) \<Rightarrow>
   ref_state \<Rightarrow> string \<Rightarrow> report_action js_object \<Rightarrow> string \<times> ref_state" where
  "getLastVisibleMessageText_refs isDeletedAction htmlToText formatReportLastMessageText
     st reportID actionsToMerge =
     (let existingReportActions =
            indexBy (\<lambda>a. seq_key (rs_heap st ! a)) (rs_mirror st reportID);
          merged = lodashMerge_refs [] existingReportActions actionsToMerge (rs_heap st);
          actions = toArray (fst merged);
          lastMessageIndex = findLastIndex actions (\<lambda>a. \<not> isDeletedAction (snd merged ! a));
          htmlText = get_message_html (map (\<lambda>a. snd merged ! a) actions) lastMessageIndex;
          messageText = htmlToText htmlText
      in (formatReportLastMessageText messageText, st\<lparr>rs_heap := snd merged\<rparr>))"

definition getLastVisibleReportAction_refs ::
  "(report_action \<Rightarrow> bool) \<Rightarrow> ref_state \<Rightarrow> string \<Rightarrow> report_action js_object \<Rightarrow>
   ref option \<times> ref_state" where
  "getLastVisibleReportAction_refs isDeletedAction st reportID actionsToMerge =
     (let existingReportActions =
            indexBy (\<lambda>a. seq_key (rs_heap st ! a)) (rs_mirror st reportID);
          merged = lodashMerge_refs [] existingReportActions actionsToMerge (rs_heap st);
          actions = toArray (fst merged);
          lastVisibleReportActionIndex =
            findLastIndex actions (\<lambda>a. \<not> isDeletedAction (snd merged ! a))
      in (at_index actions lastVisibleReportActionIndex, st\<lparr>rs_heap := snd merged\<rparr>))"

text \<open>The state of the module that a state with references stands for: every reference
  replaced by the object it points to.\<close>

definition view :: "ref_state \<Rightarrow> state" where
  "view st = \<lparr>reportActionsMaxSequenceNumbers = rs_index st,
     reportActions = (\<lambda>r. map_option (map (\<lambda>a. rs_heap st ! a)) (rs_mirror st r))\<rparr>"

text \<open>The references the mirror holds for a report point into the heap.\<close>

definition valid_refs :: "ref_state \<Rightarrow> string \<Rightarrow> bool" where
  "valid_refs st reportID =
     (case rs_mirror st reportID of
        None \<Rightarrow> True
      | Some refs \<Rightarrow> list_all (\<lambda>a. a < length (rs_heap st)) refs)"

text \<open>The objects behind the references of an object, and the relation the merge keeps
  between the object it builds in the heap \<open>snd oh\<close> and the object the merge on values
  builds: the heap \<open>h0\<close> the merge started from is untouched, the built object's
  references are fresh and pairwise different, and behind them are the merged values.\<close>

definition deref_all :: "report_action list \<Rightarrow> ref js_object \<Rightarrow> report_action js_object" where
  "deref_all h obj = map (\<lambda>ka. (fst ka, h ! snd ka)) obj"

definition related ::
  "report_action list \<Rightarrow> ref js_object \<times> report_action list \<Rightarrow> report_action js_object \<Rightarrow> bool" where
  "related h0 oh objv =
     (take (length h0) (snd oh) = h0 \<and> length h0 \<le> length (snd oh) \<and>
      distinct (map fst (fst oh)) \<and> distinct (map snd (fst oh)) \<and>
      (\<forall>a\<in>snd ` set (fst oh). length h0 \<le> a \<and> a < length (snd oh)) \<and>
      deref_all (snd oh) (fst oh) = objv)"

section \<open>The external store\<close>

text \<open>
  Modelled from the spec: the store's \<^verbatim>\<open>merge(key, partialValue)\<close> (the library
  \<^verbatim>\<open>react-native-onyx\<close>, which is not part of the sources), on the collection stored
  under the key: "a field-level deep merge (a \<^verbatim>\<open>null\<close> value for a map entry deletes that
  entry)".
\<close>

definition onyx_merge_entry ::
  "report_action js_object \<Rightarrow> key \<times> patch_value \<Rightarrow> report_action js_object" where
  "onyx_merge_entry coll kp =
     (case snd kp of
        PNull \<Rightarrow> filter (\<lambda>e. fst e \<noteq> fst kp) coll
      | PAction p \<Rightarrow> merge_entry coll (fst kp, p))"

definition onyx_merge ::
  "report_action js_object \<Rightarrow> patch_value js_object \<Rightarrow> report_action js_object" where
  "onyx_merge coll patch = foldl onyx_merge_entry coll (own_entries patch)"

section \<open>The module as a machine\<close>

text \<open>
  The operations of the module: a delivery to the subscription callback, and a call of
  each exported or internal function. Only the callback assigns to the module's two
  objects; the other operations return a value or issue store calls. The collaborators
  and constants the module imports are gathered in an environment.
\<close>

record env =
  env_extractCollectionItemID :: "string \<Rightarrow> string"
  env_isDeletedAction :: "report_action \<Rightarrow> bool"
  env_htmlToText :: "string \<Rightarrow> string"
  env_formatReportLastMessageText :: "string \<Rightarrow> string"
  env_ADDCOMMENT :: string
  env_ADD :: string
  env_REPORT_ACTIONS :: string

datatype operation =
    Deliver "report_action js_object option" "string option"
  | CallGetDeletedCommentsCount string nat
  | CallGetLastVisibleMessageText string "report_action js_object"
  | CallGetLastVisibleReportAction string "report_action js_object"
  | CallUpdateReportActionMessage string nat message_part
  | CallDeleteOptimisticReportAction string nat "string nullable option"

datatype outcome =
    Returned
  | Count nat
  | Text string
  | Action "report_action option"
  | Issued "store_call list"

fun step :: "env \<Rightarrow> operation \<Rightarrow> state \<Rightarrow> outcome \<times> state" where
  "step e (Deliver actions key) s =
     (Returned, connect_callback (env_extractCollectionItemID e) actions key s)"
| "step e (CallGetDeletedCommentsCount reportID seqNum) s =
     (Count (getDeletedCommentsCount (env_ADDCOMMENT e) s reportID seqNum), s)"
| "step e (CallGetLastVisibleMessageText reportID actionsToMerge) s =
     (Text (getLastVisibleMessageText (env_isDeletedAction e) (env_htmlToText e)
        (env_formatReportLastMessageText e) s reportID actionsToMerge), s)"
| "step e (CallGetLastVisibleReportAction reportID actionsToMerge) s =
     (Action (getLastVisibleReportAction (env_isDeletedAction e) s reportID actionsToMerge), s)"
| "step e (CallUpdateReportActionMessage reportID seqNum msg) s =
     (Issued (updateReportActionMessage (env_REPORT_ACTIONS e) reportID seqNum msg), s)"
| "step e (CallDeleteOptimisticReportAction reportID seqNum pending) s =
     (Issued (deleteOptimisticReportAction (env_REPORT_ACTIONS e) (env_ADD e) reportID seqNum
        pending), s)"

fun run :: "env \<Rightarrow> operation list \<Rightarrow> state \<Rightarrow> state" where
  "run e [] s = s"
| "run e (x # xs) s = run e xs (snd (step e x s))"

section \<open>The claims as the specification words them\<close>

text \<open>
  The count the specification describes: the actions that are \<open>ADDCOMMENT\<close>, have a
  sequence number strictly greater than the threshold, and whose first message part has
  empty html.
\<close>

definition spec_is_counted :: "string \<Rightarrow> nat \<Rightarrow> report_action \<Rightarrow> bool" where
  "spec_is_counted ADDCOMMENT threshold a =
     (actionName a = Some ADDCOMMENT \<and>
      (case sequenceNumber a of None \<Rightarrow> False | Some m \<Rightarrow> threshold < m) \<and>
      get_html (first_of (message a)) = [])"

definition spec_DeletedCommentsCount :: "string \<Rightarrow> state \<Rightarrow> string \<Rightarrow> nat \<Rightarrow> nat" where
  "spec_DeletedCommentsCount ADDCOMMENT s reportID threshold =
     (case reportActions s reportID of
        None \<Rightarrow> 0
      | Some acts \<Rightarrow> length (filter (spec_is_counted ADDCOMMENT threshold) acts))"

text \<open>
  The specification's condition on a delivered collection, "at least one non-loading
  action whose sequenceNumber is present", and its "sequenceNumber of the last non-loading
  action in log order".
\<close>

definition spec_has_sequenced_non_loading :: "report_action list \<Rightarrow> bool" where
  "spec_has_sequenced_non_loading acts =
     list_ex (\<lambda>a. \<not> truthy (isLoading a) \<and> sequenceNumber a \<noteq> None) acts"

definition spec_last_non_loading_sequence :: "report_action list \<Rightarrow> nat option" where
  "spec_last_non_loading_sequence acts =
     (case filter (\<lambda>a. \<not> truthy (isLoading a)) acts of
        [] \<Rightarrow> None
      | x # xs \<Rightarrow> sequenceNumber (last (x # xs)))"

text \<open>
  The specification's merge step: the mirrored actions keyed by sequence number (of two
  actions under one key, the later), and the patch laid over them key by key, its
  properties overriding the existing ones.
\<close>

definition spec_existing_at :: "state \<Rightarrow> string \<Rightarrow> key \<Rightarrow> report_action option" where
  "spec_existing_at s reportID k =
     (case reportActions s reportID of
        None \<Rightarrow> None
      | Some acts \<Rightarrow>
          (case filter (\<lambda>a. seq_key a = k) acts of
             [] \<Rightarrow> None
           | y # ys \<Rightarrow> Some (last (y # ys))))"

definition spec_merged_at ::
  "state \<Rightarrow> string \<Rightarrow> report_action js_object \<Rightarrow> key \<Rightarrow> report_action option" where
  "spec_merged_at s reportID overlay k =
     (case map_of overlay k of
        None \<Rightarrow> spec_existing_at s reportID k
      | Some p \<Rightarrow>
          Some (case spec_existing_at s reportID k of
                  None \<Rightarrow> p
                | Some d \<Rightarrow> merge_action d p))"

text \<open>
  The condition under which the merged sequence is in the order of the sequence numbers:
  every mirrored action of the report has a sequence number that is an array index, and
  every name of the patch is an array index.
\<close>

definition keys_are_array_indices :: "state \<Rightarrow> string \<Rightarrow> report_action js_object \<Rightarrow> bool" where
  "keys_are_array_indices s reportID overlay =
     ((case reportActions s reportID of
         None \<Rightarrow> True
       | Some acts \<Rightarrow>
           list_all (\<lambda>a. case sequenceNumber a of None \<Rightarrow> False | Some n \<Rightarrow> is_array_index n)
             acts) \<and>
      list_all (\<lambda>e. case fst e of Idx k \<Rightarrow> is_array_index k | Name n \<Rightarrow> False) overlay)"

section \<open>Example inputs\<close>

text \<open>The report of the specification's scenario: three comments, the second one deleted.\<close>

definition comment :: "nat \<Rightarrow> string \<Rightarrow> report_action" where
  "comment n h = \<lparr>sequenceNumber = Some n, actionName = Some ''ADDCOMMENT'',
     message = Some [\<lparr>html = Some h\<rparr>], pendingAction = None, errors = None, isLoading = None\<rparr>"

definition scenario_state :: state where
  "scenario_state = \<lparr>reportActionsMaxSequenceNumbers = [''42'' \<mapsto> 3],
     reportActions = [''42'' \<mapsto> [comment 1 ''hi'', comment 2 [], comment 3 ''bye'']]\<rparr>"

text \<open>The same report with its actions in a heap, and a patch that empties the third
  comment.\<close>

definition scenario_refs :: ref_state where
  "scenario_refs = \<lparr>rs_index = [''42'' \<mapsto> 3], rs_mirror = [''42'' \<mapsto> [0, 1, 2]],
     rs_heap = [comment 1 ''hi'', comment 2 [], comment 3 ''bye'']\<rparr>"

definition delete_third :: "report_action js_object" where
  "delete_third = [(Idx 3, no_fields\<lparr>message := Some [\<lparr>html = Some []\<rparr>]\<rparr>)]"

text \<open>A report with comments 1 and 5 and a patch that adds a comment 3 between them.\<close>

definition gap_state :: state where
  "gap_state = \<lparr>reportActionsMaxSequenceNumbers = [''42'' \<mapsto> 5],
     reportActions = [''42'' \<mapsto> [comment 1 ''one'', comment 5 ''five'']]\<rparr>"

definition insert_third :: "report_action js_object" where
  "insert_third = [(Idx 3, comment 3 ''three'')]"

text \<open>A report whose comment 5 has two message parts, and a patch that renames that
  action and empties its first part.\<close>

definition two_part_state :: state where
  "two_part_state = \<lparr>reportActionsMaxSequenceNumbers = [''42'' \<mapsto> 5],
     reportActions = [''42'' \<mapsto> [comment 1 ''one'',
       (comment 5 ''five'')\<lparr>message := Some [\<lparr>html = Some ''five''\<rparr>, \<lparr>html = Some ''more''\<rparr>]\<rparr>]]\<rparr>"

definition rename_fifth :: "report_action js_object" where
  "rename_fifth =
     [(Idx 5, no_fields\<lparr>actionName := Some ''RENAMED'', message := Some [\<lparr>html = Some []\<rparr>]\<rparr>)]"

text \<open>A report whose two sequence numbers are not array indices, the larger one mirrored
  first.\<close>

definition large_state :: state where
  "large_state = \<lparr>reportActionsMaxSequenceNumbers = Map.empty,
     reportActions = [''42'' \<mapsto> [comment 4294967297 ''A'', comment 4294967296 ''B'']]\<rparr>"

text \<open>A deleted comment that has no sequence number yet, and a report holding only it.\<close>

definition unsequenced_tombstone :: report_action where
  "unsequenced_tombstone = \<lparr>sequenceNumber = None, actionName = Some ''ADDCOMMENT'',
     message = Some [\<lparr>html = Some []\<rparr>], pendingAction = None, errors = None, isLoading = None\<rparr>"

definition unsequenced_state :: state where
  "unsequenced_state = \<lparr>reportActionsMaxSequenceNumbers = Map.empty,
     reportActions = [''42'' \<mapsto> [unsequenced_tombstone]]\<rparr>"

text \<open>A report whose only comment has html of one space.\<close>

definition blank_state :: state where
  "blank_state = \<lparr>reportActionsMaxSequenceNumbers = [''42'' \<mapsto> 1],
     reportActions = [''42'' \<mapsto> [comment 1 '' '']]\<rparr>"

text \<open>A comment with no message at all, and a report holding it after a visible one.\<close>

definition bare_comment :: report_action where
  "bare_comment = \<lparr>sequenceNumber = Some 5, actionName = Some ''ADDCOMMENT'',
     message = None, pendingAction = None, errors = None, isLoading = None\<rparr>"

definition bare_state :: state where
  "bare_state = \<lparr>reportActionsMaxSequenceNumbers = [''42'' \<mapsto> 5],
     reportActions = [''42'' \<mapsto> [comment 1 ''hi'', bare_comment]]\<rparr>"

text \<open>Deliveries: a placeholder that is still loading; a collection that ends in one; a
  collection of placeholders only; and a collection whose last non-loading action has no
  sequence number. The state they are delivered to has the index entry 7 for the report.\<close>

definition placeholder :: "nat \<Rightarrow> report_action" where
  "placeholder n = \<lparr>sequenceNumber = Some n, actionName = Some ''ADDCOMMENT'',
     message = None, pendingAction = None, errors = None, isLoading = Some True\<rparr>"

definition delivery_committed :: "report_action js_object" where
  "delivery_committed = [(Idx 1, comment 1 ''hi''), (Idx 2, comment 2 []), (Idx 3, placeholder 3)]"

definition delivery_loading :: "report_action js_object" where
  "delivery_loading = [(Idx 8, placeholder 8), (Idx 9, placeholder 9)]"

definition delivery_unsequenced :: "report_action js_object" where
  "delivery_unsequenced = [(Idx 1, comment 1 ''hi''), (Name ''pending'', unsequenced_tombstone)]"

definition seven_state :: state where
  "seven_state = \<lparr>reportActionsMaxSequenceNumbers = [''42'' \<mapsto> 7],
     reportActions = Map.empty\<rparr>"

text \<open>Collaborators for the examples: the report id is the key without its
  \<^verbatim>\<open>reportActions_\<close> prefix; an action is deleted when it has no message part or the html
  of its first part is the empty string; the converter returns its input and the
  formatter keeps the first hundred characters.\<close>

definition example_extract :: "string \<Rightarrow> string" where
  "example_extract k = drop 14 k"

definition example_isDeletedAction :: "report_action \<Rightarrow> bool" where
  "example_isDeletedAction a =
     (case message a of None \<Rightarrow> True | Some [] \<Rightarrow> True | Some (p # _) \<Rightarrow> html p = Some [])"

definition example_env :: env where
  "example_env = \<lparr>env_extractCollectionItemID = example_extract,
     env_isDeletedAction = example_isDeletedAction,
     env_htmlToText = id, env_formatReportLastMessageText = take 100,
     env_ADDCOMMENT = ''ADDCOMMENT'', env_ADD = ''add'',
     env_REPORT_ACTIONS = ''reportActions_''\<rparr>"

definition example_session :: "operation list" where
  "example_session =
     [Deliver (Some delivery_loading) (Some ''reportActions_42''),
      CallGetDeletedCommentsCount ''42'' 0,
      CallGetLastVisibleMessageText ''42'' delete_third,
      CallGetLastVisibleReportAction ''42'' [],
      CallUpdateReportActionMessage ''42'' 2 \<lparr>html = Some ''edited''\<rparr>,
      CallDeleteOptimisticReportAction ''42'' 3 (Some (Val ''add'')),
      Deliver None (Some ''reportActions_42''),
      Deliver (Some delivery_committed) (Some ''reportActions_42'')]"

text \<open>A stored collection for the store's merge.\<close>

definition stored_collection :: "report_action js_object" where
  "stored_collection =
     [(Idx 2, comment 2 ''two''),
      (Idx 3, (comment 3 ''three'')\<lparr>pendingAction := Some (Val ''update''),
                                  errors := Some (Val ''failed'')\<rparr>)]"

section \<open>Library facts\<close>

subsection \<open>Scanning from the end\<close>

lemma findLastIndex_below_none:
  "(\<forall>i<n. \<not> P (xs ! i)) \<Longrightarrow> findLastIndex_below xs P n = - 1"
  by (induction n) simp_all

lemma findLastIndex_below_last:
  "i < n \<Longrightarrow> P (xs ! i) \<Longrightarrow> (\<forall>j. i < j \<and> j < n \<longrightarrow> \<not> P (xs ! j)) \<Longrightarrow>
   findLastIndex_below xs P n = int i"
proof (induction n)
  case 0
  then show ?case by simp
next
  case (Suc n)
  show ?case
  proof (cases "i = n")
    case True
    then show ?thesis using Suc.prems by simp
  next
    case False
    then have "i < n" using Suc.prems by simp
    moreover have "\<not> P (xs ! n)" using Suc.prems False by simp
    ultimately show ?thesis using Suc by simp
  qed
qed

lemma findLastIndex_none:
  "(\<forall>b\<in>set xs. \<not> P b) \<Longrightarrow> findLastIndex xs P = - 1"
  unfolding findLastIndex_def by (rule findLastIndex_below_none) simp

lemma findLastIndex_last:
  assumes "P a" and "\<forall>b\<in>set post. \<not> P b"
  shows "findLastIndex (pre @ a # post) P = int (length pre)"
  unfolding findLastIndex_def
proof (rule findLastIndex_below_last)
  show "length pre < length (pre @ a # post)" by simp
  show "P ((pre @ a # post) ! length pre)" using assms(1) by simp
  show "\<forall>j. length pre < j \<and> j < length (pre @ a # post) \<longrightarrow> \<not> P ((pre @ a # post) ! j)"
  proof (intro allI impI)
    fix j assume j: "length pre < j \<and> j < length (pre @ a # post)"
    then have "(pre @ a # post) ! j = post ! (j - length pre - 1)"
      by (simp add: nth_append nth_Cons')
    moreover have "j - length pre - 1 < length post" using j by auto
    ultimately show "\<not> P ((pre @ a # post) ! j)" using assms(2) by (metis nth_mem)
  qed
qed

lemma findLastIndex_below_map:
  "n \<le> length xs \<Longrightarrow>
   findLastIndex_below (map f xs) P n = findLastIndex_below xs (\<lambda>x. P (f x)) n"
  by (induction n) simp_all

lemma findLastIndex_map: "findLastIndex (map f xs) P = findLastIndex xs (\<lambda>x. P (f x))"
  by (simp add: findLastIndex_def findLastIndex_below_map)

lemma at_index_length: "at_index (pre @ a # post) (int (length pre)) = Some a"
  by (simp add: at_index_def)

lemma at_index_minus_one: "at_index xs (- 1) = None"
  by (simp add: at_index_def)

lemma at_index_first: "at_index parts 0 = first_of (Some parts)"
  by (cases parts) (simp_all add: at_index_def first_of_def)

lemma at_index_map: "at_index (map f xs) i = map_option f (at_index xs i)"
  by (auto simp add: at_index_def nat_less_iff)

subsection \<open>Objects\<close>

lemma obj_set_fresh: "k \<notin> fst ` set obj \<Longrightarrow> obj_set k v obj = obj @ [(k, v)]"
  by (induction obj) auto

lemma map_of_obj_set: "map_of (obj_set k v obj) = (map_of obj)(k \<mapsto> v)"
  by (induction k v obj rule: obj_set.induct) auto

lemma fst_set_obj_set: "fst ` set (obj_set k v obj) = insert k (fst ` set obj)"
  by (induction k v obj rule: obj_set.induct) (simp_all add: insert_commute)

lemma snd_set_obj_set: "snd ` set (obj_set k v obj) \<subseteq> insert v (snd ` set obj)"
  by (induction k v obj rule: obj_set.induct) auto

lemma distinct_obj_set: "distinct (map fst obj) \<Longrightarrow> distinct (map fst (obj_set k v obj))"
  by (induction k v obj rule: obj_set.induct) (auto simp add: fst_set_obj_set)

lemma set_index_name_entries:
  "(\<lambda>ia. (Idx (fst ia), snd ia)) ` set (index_entries obj) \<union> set (name_entries obj) = set obj"
  by (induction obj rule: index_entries.induct) auto

lemma set_own_entries: "set (own_entries obj) = set obj"
  using set_index_name_entries [of obj] by (simp add: own_entries_def case_prod_beta)

lemma fst_index_entries: "Idx ` fst ` set (index_entries obj) \<subseteq> fst ` set obj"
  by (induction obj rule: index_entries.induct) auto

lemma fst_name_entries: "fst ` set (name_entries obj) \<subseteq> fst ` set obj"
  by (induction obj rule: name_entries.induct) auto

lemma name_entries_not_index: "is_array_index i \<Longrightarrow> Idx i \<notin> fst ` set (name_entries obj)"
  by (induction obj rule: name_entries.induct) auto

lemma index_entries_are_indices: "e \<in> set (index_entries obj) \<Longrightarrow> is_array_index (fst e)"
  by (induction obj rule: index_entries.induct) (auto split: if_splits)

lemma index_entries_iff:
  "(i, v) \<in> set (index_entries obj) \<longleftrightarrow> (Idx i, v) \<in> set obj \<and> is_array_index i"
  by (induction obj rule: index_entries.induct) auto

lemma distinct_index_entries:
  "distinct (map fst obj) \<Longrightarrow> distinct (map fst (index_entries obj))"
proof (induction obj rule: index_entries.induct)
  case 1
  then show ?case by simp
next
  case (2 i v kvs)
  have "i \<notin> fst ` set (index_entries kvs)"
  proof
    assume "i \<in> fst ` set (index_entries kvs)"
    then have "Idx i \<in> fst ` set kvs" using fst_index_entries [of kvs] by blast
    then show False using "2.prems" by simp
  qed
  then show ?case using 2 by simp
next
  case (3 n v kvs)
  then show ?case by simp
qed

lemma distinct_name_entries:
  "distinct (map fst obj) \<Longrightarrow> distinct (map fst (name_entries obj))"
proof (induction obj rule: name_entries.induct)
  case 1
  then show ?case by simp
next
  case (2 i v kvs)
  have "Idx i \<notin> fst ` set (name_entries kvs)"
    using "2.prems" fst_name_entries [of kvs] by auto
  then show ?case using 2 by simp
next
  case (3 n v kvs)
  have "Name n \<notin> fst ` set (name_entries kvs)"
    using "3.prems" fst_name_entries [of kvs] by auto
  then show ?case using 3 by simp
qed

lemma distinct_own_entries:
  assumes "distinct (map fst obj)"
  shows "distinct (map fst (own_entries obj))"
proof -
  have eq: "map fst (own_entries obj) =
        map Idx (map fst (sort_key fst (index_entries obj))) @ map fst (name_entries obj)"
    by (simp add: own_entries_def case_prod_beta comp_def)
  have "distinct (map fst (sort_key fst (index_entries obj)))"
    using distinct_index_entries [OF assms] by (simp add: distinct_map inj_on_def)
  then have "distinct (map Idx (map fst (sort_key fst (index_entries obj))))"
    by (simp add: distinct_map inj_on_def)
  moreover have "distinct (map fst (name_entries obj))"
    using assms by (rule distinct_name_entries)
  moreover have "set (map Idx (map fst (sort_key fst (index_entries obj)))) \<inter>
                 set (map fst (name_entries obj)) = {}"
    using name_entries_not_index [of _ obj] index_entries_are_indices [of _ obj] by auto
  ultimately show ?thesis unfolding eq by (simp only: distinct_append simp_thms)
qed

lemma map_of_own_entries:
  "distinct (map fst obj) \<Longrightarrow> map_of (own_entries obj) = map_of obj"
  using distinct_own_entries [of obj] set_own_entries [of obj]
  by (simp add: map_of_inject_set)

lemma map_of_remove_key:
  "map_of (filter (\<lambda>e. fst e \<noteq> k) coll) = (map_of coll)(k := None)"
  by (induction coll) auto

subsection \<open>The merge, key by key\<close>

lemma map_of_merge_entry:
  "map_of (merge_entry obj kp) =
     (map_of obj)(fst kp \<mapsto>
        (case map_of obj (fst kp) of None \<Rightarrow> snd kp | Some d \<Rightarrow> merge_action d (snd kp)))"
  by (simp add: merge_entry_def map_of_obj_set split: option.splits)

lemma distinct_merge_entry:
  "distinct (map fst obj) \<Longrightarrow> distinct (map fst (merge_entry obj kp))"
  by (simp add: merge_entry_def distinct_obj_set split: option.splits)

lemma distinct_foldl_merge_entry:
  "distinct (map fst obj) \<Longrightarrow> distinct (map fst (foldl merge_entry obj es))"
  by (induction es arbitrary: obj) (simp_all add: distinct_merge_entry)

lemma map_of_foldl_merge_entry:
  "distinct (map fst es) \<Longrightarrow>
   map_of (foldl merge_entry obj es) k =
     (case map_of es k of
        None \<Rightarrow> map_of obj k
      | Some p \<Rightarrow> Some (case map_of obj k of None \<Rightarrow> p | Some d \<Rightarrow> merge_action d p))"
proof (induction es arbitrary: obj)
  case Nil
  then show ?case by simp
next
  case (Cons e es)
  have rest: "map_of (foldl merge_entry (merge_entry obj e) es) k =
     (case map_of es k of
        None \<Rightarrow> map_of (merge_entry obj e) k
      | Some p \<Rightarrow> Some (case map_of (merge_entry obj e) k of None \<Rightarrow> p | Some d \<Rightarrow> merge_action d p))"
    using Cons.prems by (intro Cons.IH) simp
  show ?case
  proof (cases "fst e = k")
    case True
    then have "map_of es k = None"
      using Cons.prems by (simp add: map_of_eq_None_iff)
    then show ?thesis
      using rest True by (cases e) (simp add: map_of_merge_entry split: option.splits)
  next
    case False
    then show ?thesis
      using rest by (cases e) (simp add: map_of_merge_entry split: option.splits)
  qed
qed

lemma map_of_foldl_indexBy:
  "map_of (foldl (\<lambda>obj x. obj_set (f x) x obj) obj xs) k =
     (case filter (\<lambda>a. f a = k) xs of [] \<Rightarrow> map_of obj k | y # ys \<Rightarrow> Some (last (y # ys)))"
proof (induction xs arbitrary: obj)
  case Nil
  then show ?case by simp
next
  case (Cons x xs)
  show ?case
    using Cons.IH [of "obj_set (f x) x obj"]
    by (simp add: map_of_obj_set split: list.splits)
qed

lemma distinct_foldl_indexBy:
  "distinct (map fst obj) \<Longrightarrow> distinct (map fst (foldl (\<lambda>obj x. obj_set (f x) x obj) obj xs))"
  by (induction xs arbitrary: obj) (simp_all add: distinct_obj_set)

lemma distinct_indexBy: "distinct (map fst (indexBy f list))"
  by (cases list) (simp_all add: indexBy_def distinct_foldl_indexBy)

lemma map_of_indexBy:
  "map_of (indexBy seq_key (reportActions s r)) k = spec_existing_at s r k"
  using map_of_foldl_indexBy [of seq_key "[]" _ k]
  by (cases "reportActions s r")
    (simp_all add: indexBy_def spec_existing_at_def split: list.splits)

lemma merged_lookup:
  assumes "distinct (map fst ov)"
  shows "map_of (lodashMerge [] (indexBy seq_key (reportActions s r)) ov) k =
         spec_merged_at s r ov k"
proof -
  let ?E = "indexBy seq_key (reportActions s r)"
  have dE: "distinct (map fst (own_entries ?E))"
    using distinct_indexBy by (rule distinct_own_entries)
  have "map_of (foldl merge_entry [] (own_entries ?E)) k =
        (case map_of (own_entries ?E) k of None \<Rightarrow> None | Some p \<Rightarrow> Some p)"
    using map_of_foldl_merge_entry [OF dE, of "[]" k] by (simp split: option.splits)
  then have first: "map_of (foldl merge_entry [] (own_entries ?E)) k = spec_existing_at s r k"
    using map_of_own_entries [OF distinct_indexBy, of seq_key "reportActions s r"]
    by (simp add: map_of_indexBy split: option.splits)
  have dov: "distinct (map fst (own_entries ov))"
    using assms by (rule distinct_own_entries)
  show ?thesis
    using map_of_foldl_merge_entry [OF dov, of "foldl merge_entry [] (own_entries ?E)" k]
    by (simp add: lodashMerge_def first map_of_own_entries [OF assms] spec_merged_at_def
        cong: option.case_cong)
qed

lemma distinct_lodashMerge:
  "distinct (map fst (lodashMerge [] source1 source2))"
  by (simp add: lodashMerge_def distinct_foldl_merge_entry)

lemma set_merged:
  assumes "distinct (map fst ov)"
  shows "set (toArray (lodashMerge [] (indexBy seq_key (reportActions s r)) ov)) =
         {a. \<exists>k. spec_merged_at s r ov k = Some a}"
proof -
  let ?M = "lodashMerge [] (indexBy seq_key (reportActions s r)) ov"
  have "set (toArray ?M) = snd ` set ?M"
    by (simp add: toArray_def set_own_entries)
  also have "\<dots> = ran (map_of ?M)"
    using distinct_lodashMerge by (simp add: ran_distinct)
  also have "\<dots> = {a. \<exists>k. spec_merged_at s r ov k = Some a}"
    using merged_lookup [OF assms] by (simp add: ran_def)
  finally show ?thesis .
qed

subsection \<open>The order of the merged sequence\<close>

lemma fst_set_merge_entry: "fst ` set (merge_entry obj kp) = insert (fst kp) (fst ` set obj)"
  by (simp add: merge_entry_def fst_set_obj_set split: option.splits)

lemma fst_set_foldl_merge_entry:
  "fst ` set (foldl merge_entry obj es) = fst ` set obj \<union> fst ` set es"
  by (induction es arbitrary: obj) (auto simp add: fst_set_merge_entry)

lemma fst_set_foldl_indexBy:
  "fst ` set (foldl (\<lambda>obj x. obj_set (f x) x obj) obj xs) = fst ` set obj \<union> f ` set xs"
  by (induction xs arbitrary: obj) (auto simp add: fst_set_obj_set)

lemma fst_set_indexBy:
  "fst ` set (indexBy f list) = (case list of None \<Rightarrow> {} | Some xs \<Rightarrow> f ` set xs)"
  using fst_set_foldl_indexBy [of f "[]"] by (cases list) (simp_all add: indexBy_def)

lemma fst_set_lodashMerge:
  "fst ` set (lodashMerge [] source1 source2) = fst ` set source1 \<union> fst ` set source2"
  by (simp add: lodashMerge_def fst_set_foldl_merge_entry set_own_entries)

lemma merged_keys_are_indices:
  assumes "keys_are_array_indices s r ov"
    and "e \<in> set (lodashMerge [] (indexBy seq_key (reportActions s r)) ov)"
  shows "\<exists>k. fst e = Idx k \<and> is_array_index k"
proof -
  have "fst e \<in> fst ` set (indexBy seq_key (reportActions s r)) \<union> fst ` set ov"
    using assms(2) fst_set_lodashMerge by blast
  then show ?thesis
  proof
    assume "fst e \<in> fst ` set (indexBy seq_key (reportActions s r))"
    then obtain acts a where a: "reportActions s r = Some acts" "a \<in> set acts"
      "fst e = seq_key a"
      by (cases "reportActions s r") (auto simp add: fst_set_indexBy)
    then have "case sequenceNumber a of None \<Rightarrow> False | Some n \<Rightarrow> is_array_index n"
      using assms(1) by (simp add: keys_are_array_indices_def list_all_iff)
    then show ?thesis
      using a(3) by (cases "sequenceNumber a") (simp_all add: seq_key_def)
  next
    assume "fst e \<in> fst ` set ov"
    then obtain p where "p \<in> set ov" "fst p = fst e" by auto
    then have "case fst e of Idx k \<Rightarrow> is_array_index k | Name n \<Rightarrow> False"
      using assms(1) by (auto simp add: keys_are_array_indices_def list_all_iff)
    then show ?thesis by (cases "fst e") simp_all
  qed
qed

lemma name_entries_of_indices:
  "(\<forall>e\<in>set obj. \<exists>k. fst e = Idx k \<and> is_array_index k) \<Longrightarrow> name_entries obj = []"
  by (induction obj rule: name_entries.induct) auto

lemma merged_in_key_order:
  assumes "distinct (map fst ov)" and "keys_are_array_indices s r ov"
  shows "\<exists>ks. sorted ks \<and> distinct ks \<and>
           set ks = {k. spec_merged_at s r ov (Idx k) \<noteq> None} \<and>
           map Some (toArray (lodashMerge [] (indexBy seq_key (reportActions s r)) ov)) =
             map (\<lambda>k. spec_merged_at s r ov (Idx k)) ks"
proof -
  let ?M = "lodashMerge [] (indexBy seq_key (reportActions s r)) ov"
  let ?ixs = "sort_key fst (index_entries ?M)"
  have dM: "distinct (map fst ?M)" by (rule distinct_lodashMerge)
  have member: "(Idx k, v) \<in> set ?M \<longleftrightarrow> spec_merged_at s r ov (Idx k) = Some v" for k v
    using dM merged_lookup [OF assms(1), of s r "Idx k"] by (auto dest: map_of_SomeD)
  have names: "name_entries ?M = []"
    using merged_keys_are_indices [OF assms(2)] by (intro name_entries_of_indices) blast
  have arr: "toArray ?M = map snd ?ixs"
    by (simp add: toArray_def own_entries_def names comp_def case_prod_beta)
  have "sorted (map fst ?ixs)" by (rule sorted_sort_key)
  moreover have "distinct (map fst ?ixs)"
    using distinct_index_entries [OF dM] by (simp add: distinct_map inj_on_def)
  moreover have "set (map fst ?ixs) = {k. spec_merged_at s r ov (Idx k) \<noteq> None}"
  proof (intro set_eqI iffI)
    fix k assume "k \<in> set (map fst ?ixs)"
    then obtain v where "(k, v) \<in> set (index_entries ?M)" by auto
    then have "(Idx k, v) \<in> set ?M" by (simp add: index_entries_iff)
    then show "k \<in> {k. spec_merged_at s r ov (Idx k) \<noteq> None}" using member by simp
  next
    fix k assume "k \<in> {k. spec_merged_at s r ov (Idx k) \<noteq> None}"
    then obtain v where v: "(Idx k, v) \<in> set ?M" using member by auto
    then have "is_array_index k"
      using merged_keys_are_indices [OF assms(2) v] by simp
    then have "(k, v) \<in> set (index_entries ?M)" using v by (simp add: index_entries_iff)
    then show "k \<in> set (map fst ?ixs)" by force
  qed
  moreover have "map Some (map snd ?ixs) = map (\<lambda>k. spec_merged_at s r ov (Idx k)) (map fst ?ixs)"
  proof -
    have "Some (snd e) = spec_merged_at s r ov (Idx (fst e))" if "e \<in> set ?ixs" for e
    proof -
      have "(Idx (fst e), snd e) \<in> set ?M"
        using that index_entries_iff [of "fst e" "snd e" ?M] by simp
      then show ?thesis using member by simp
    qed
    then show ?thesis by (simp add: comp_def)
  qed
  ultimately show ?thesis unfolding arr by blast
qed

subsection \<open>The text of the last visible action\<close>

lemma text_of_last_visible:
  assumes "toArray (lodashMerge [] (indexBy seq_key (reportActions s r)) ov) = pre @ a # post"
    and "\<not> isDel a" and "\<forall>b\<in>set post. isDel b"
  shows "getLastVisibleMessageText isDel h2t fmt s r ov =
           fmt (h2t (get_html (first_of (message a))))"
proof -
  have "findLastIndex (pre @ a # post) (\<lambda>action. \<not> isDel action) = int (length pre)"
    using assms(2,3) by (intro findLastIndex_last) simp_all
  then show ?thesis
    using assms(1)
    by (simp add: getLastVisibleMessageText_def Let_def get_message_html_def at_index_length
        at_index_first first_of_def get_html_def split: option.splits)
qed

lemma text_of_none_visible:
  assumes "\<forall>b\<in>set (toArray (lodashMerge [] (indexBy seq_key (reportActions s r)) ov)). isDel b"
  shows "getLastVisibleMessageText isDel h2t fmt s r ov = fmt (h2t [])"
proof -
  have "findLastIndex (toArray (lodashMerge [] (indexBy seq_key (reportActions s r)) ov))
          (\<lambda>action. \<not> isDel action) = - 1"
    using assms by (intro findLastIndex_none) simp
  then show ?thesis
    by (simp add: getLastVisibleMessageText_def Let_def get_message_html_def at_index_minus_one)
qed

lemma text_of_greatest_visible_key:
  assumes "distinct (map fst ov)" and "keys_are_array_indices s r ov"
    and "spec_merged_at s r ov (Idx k) = Some a" and "\<not> isDel a"
    and later: "\<forall>k' b. k < k' \<and> spec_merged_at s r ov (Idx k') = Some b \<longrightarrow> isDel b"
  shows "getLastVisibleMessageText isDel h2t fmt s r ov =
           fmt (h2t (get_html (first_of (message a))))"
proof -
  let ?f = "\<lambda>k. spec_merged_at s r ov (Idx k)"
  let ?actions = "toArray (lodashMerge [] (indexBy seq_key (reportActions s r)) ov)"
  obtain ks where ks: "sorted ks" "distinct ks" "set ks = {k. ?f k \<noteq> None}"
    "map Some ?actions = map ?f ks"
    using merged_in_key_order [OF assms(1,2)] by blast
  have "k \<in> set ks" using ks(3) assms(3) by simp
  then obtain ks1 ks2 where split: "ks = ks1 @ k # ks2" by (auto dest: split_list)
  have greater: "\<forall>k'\<in>set ks2. k < k'"
    using ks(1,2) unfolding split by (auto simp add: sorted_append le_less)
  have "map Some ?actions = map ?f ks1 @ Some a # map ?f ks2"
    using ks(4) assms(3) unfolding split by simp
  then obtain pre rest where pre: "?actions = pre @ rest" "map Some rest = Some a # map ?f ks2"
    by (auto simp add: map_eq_append_conv)
  then obtain post where post: "rest = a # post" "map Some post = map ?f ks2"
    by (auto simp add: map_eq_Cons_conv)
  have "\<forall>b\<in>set post. isDel b"
  proof
    fix b assume "b \<in> set post"
    then have "Some b \<in> set (map Some post)" by simp
    then obtain k' where "k' \<in> set ks2" "?f k' = Some b" unfolding post(2) by auto
    then show "isDel b" using greater later by blast
  qed
  then show ?thesis
    using pre(1) post(1) assms(4) by (intro text_of_last_visible) simp_all
qed

lemma text_of_no_visible_key:
  assumes "distinct (map fst ov)" and "keys_are_array_indices s r ov"
    and "\<forall>k b. spec_merged_at s r ov (Idx k) = Some b \<longrightarrow> isDel b"
  shows "getLastVisibleMessageText isDel h2t fmt s r ov = fmt (h2t [])"
proof (rule text_of_none_visible, rule ballI)
  fix b
  assume "b \<in> set (toArray (lodashMerge [] (indexBy seq_key (reportActions s r)) ov))"
  then obtain k where "spec_merged_at s r ov k = Some b"
    using set_merged [OF assms(1), of s r] by auto
  moreover have "(k, b) \<in> set (lodashMerge [] (indexBy seq_key (reportActions s r)) ov)"
    using calculation merged_lookup [OF assms(1), of s r k] by (auto dest!: map_of_SomeD)
  then have "\<exists>e\<in>set (lodashMerge [] (indexBy seq_key (reportActions s r)) ov). fst e = k"
    by force
  then obtain i where "k = Idx i"
    using merged_keys_are_indices [OF assms(2)] by auto
  ultimately show "isDel b" using assms(3) by blast
qed

subsection \<open>The store's merge of a one-entry patch\<close>

lemma onyx_merge_null:
  "map_of (onyx_merge coll [(k, PNull)]) = (map_of coll)(k := None)"
  by (cases k) (simp_all add: onyx_merge_def own_entries_def onyx_merge_entry_def map_of_remove_key)

lemma onyx_merge_action:
  "map_of (onyx_merge coll [(k, PAction p)]) =
     (map_of coll)(k \<mapsto> (case map_of coll k of None \<Rightarrow> p | Some d \<Rightarrow> merge_action d p))"
  by (cases k)
    (simp_all add: onyx_merge_def own_entries_def onyx_merge_entry_def map_of_merge_entry
      cong: option.case_cong)

lemma merge_clear_pending:
  "merge_action d (no_fields\<lparr>pendingAction := Some Null, errors := Some Null\<rparr>) =
   d\<lparr>pendingAction := Some Null, errors := Some Null\<rparr>"
  by (simp add: merge_action_def no_fields_def)

subsection \<open>Counting and the callback\<close>

lemma count_deleted_step:
  "count_deleted A n k a =
     (if actionName a = Some A \<and> (case sequenceNumber a of None \<Rightarrow> True | Some m \<Rightarrow> n < m) \<and>
         get_html (first_of (message a)) = []
      then Suc k else k)"
  by (auto simp add: count_deleted_def js_le_def isEmpty_def Let_def split: option.splits)

lemma foldl_count_deleted:
  "foldl (count_deleted A n) k acts =
     k + length (filter (\<lambda>a. actionName a = Some A \<and>
           (case sequenceNumber a of None \<Rightarrow> True | Some m \<Rightarrow> n < m) \<and>
           get_html (first_of (message a)) = []) acts)"
  by (induction acts arbitrary: k) (simp_all add: count_deleted_step)

lemma callback_keeps_entries:
  "reportActionsMaxSequenceNumbers s r = Some n \<Longrightarrow>
   \<exists>m. reportActionsMaxSequenceNumbers (connect_callback ex actions key s) r = Some m"
  by (auto simp add: connect_callback_def Let_def split: option.splits)

lemma step_keeps_entries:
  "reportActionsMaxSequenceNumbers s r = Some n \<Longrightarrow>
   \<exists>m. reportActionsMaxSequenceNumbers (snd (step e x s)) r = Some m"
  by (cases x) (simp_all add: callback_keeps_entries)

lemma toArray_delivery_committed:
  "toArray delivery_committed = [comment 1 ''hi''] @ comment 2 [] # [placeholder 3]"
  by (simp add: delivery_committed_def toArray_def own_entries_def is_array_index_def)

lemma toArray_delivery_unsequenced:
  "toArray delivery_unsequenced = [comment 1 ''hi''] @ unsequenced_tombstone # []"
  by (simp add: delivery_unsequenced_def toArray_def own_entries_def is_array_index_def)

lemma toArray_delivery_loading:
  "toArray delivery_loading = [placeholder 8, placeholder 9]"
  by (simp add: delivery_loading_def toArray_def own_entries_def is_array_index_def)

subsection \<open>The merge in the heap\<close>

lemma obj_set_deref:
  "obj_set k (f a) (map (\<lambda>ka. (fst ka, f (snd ka))) obj) =
   map (\<lambda>ka. (fst ka, f (snd ka))) (obj_set k a obj)"
  by (induction obj) auto

lemma map_of_deref_all: "map_of (deref_all h obj) k = map_option (\<lambda>a. h ! a) (map_of obj k)"
  by (induction obj) (auto simp add: deref_all_def)

lemma deref_update:
  assumes "distinct (map fst obj)" and "distinct (map snd obj)" and "(k, d) \<in> set obj"
    and "d < length h"
  shows "deref_all (h[d := v]) obj = obj_set k v (deref_all h obj)"
  using assms
proof (induction obj)
  case Nil
  then show ?case by simp
next
  case (Cons e obj)
  obtain k' a' where e: "e = (k', a')" by (cases e)
  show ?case
  proof (cases "k' = k")
    case True
    then have "a' = d" using Cons.prems e by (auto simp add: rev_image_eqI)
    moreover have "\<forall>x\<in>set obj. d \<noteq> snd x" using Cons.prems(2) e \<open>a' = d\<close> by auto
    then have "deref_all (h[d := v]) obj = deref_all h obj"
      by (simp add: deref_all_def)
    ultimately show ?thesis using e True Cons.prems(4) by (simp add: deref_all_def)
  next
    case False
    then have in_rest: "(k, d) \<in> set obj" using Cons.prems(3) e by auto
    then have "a' \<noteq> d" using Cons.prems(2) e by (auto simp add: rev_image_eqI)
    moreover have "deref_all (h[d := v]) obj = obj_set k v (deref_all h obj)"
      using Cons.IH Cons.prems in_rest by simp
    ultimately show ?thesis using e False by (simp add: deref_all_def)
  qed
qed

lemma related_merge_into:
  assumes "related h0 oh objv"
  shows "related h0 (merge_into oh kp) (merge_entry objv kp)"
proof (cases "map_of (fst oh) (fst kp)")
  case None
  then have fresh: "fst kp \<notin> fst ` set (fst oh)" by (simp add: map_of_eq_None_iff)
  have v: "map_of objv (fst kp) = None"
    using assms None by (auto simp add: related_def map_of_deref_all)
  have m: "merge_into oh kp = (fst oh @ [(fst kp, length (snd oh))], snd oh @ [snd kp])"
    using None fresh by (simp add: merge_into_def obj_set_fresh)
  have "fst kp \<notin> fst ` set objv" using v by (simp add: map_of_eq_None_iff)
  then have mv: "merge_entry objv kp = objv @ [(fst kp, snd kp)]"
    using v by (simp add: merge_entry_def obj_set_fresh)
  have "\<forall>x\<in>set (fst oh). snd x < length (snd oh)"
    using assms by (auto simp add: related_def)
  then have "deref_all (snd oh @ [snd kp]) (fst oh) = deref_all (snd oh) (fst oh)"
    by (simp add: deref_all_def nth_append)
  then show ?thesis
    using assms fresh unfolding m mv related_def
    by (auto simp add: deref_all_def)
next
  case (Some d)
  then have mem: "(fst kp, d) \<in> set (fst oh)" by (rule map_of_SomeD)
  then have d: "length h0 \<le> d \<and> d < length (snd oh)"
    using assms by (force simp add: related_def)
  have v: "map_of objv (fst kp) = Some (snd oh ! d)"
    using assms Some by (auto simp add: related_def map_of_deref_all)
  have m: "merge_into oh kp = (fst oh, (snd oh)[d := merge_action (snd oh ! d) (snd kp)])"
    using Some by (simp add: merge_into_def)
  have mv: "merge_entry objv kp = obj_set (fst kp) (merge_action (snd oh ! d) (snd kp)) objv"
    using v by (simp add: merge_entry_def)
  have "deref_all ((snd oh)[d := merge_action (snd oh ! d) (snd kp)]) (fst oh) =
        obj_set (fst kp) (merge_action (snd oh ! d) (snd kp)) (deref_all (snd oh) (fst oh))"
    using assms mem d by (intro deref_update) (simp_all add: related_def)
  then show ?thesis
    using assms d unfolding m mv related_def by auto
qed

lemma related_foldl_merge_into:
  "related h0 oh objv \<Longrightarrow> related h0 (foldl merge_into oh es) (foldl merge_entry objv es)"
  by (induction es arbitrary: oh objv) (simp_all add: related_merge_into)

lemma related_merge_from:
  assumes "related h0 oh objv" and "snd ka < length h0"
  shows "related h0 (merge_from oh ka) (merge_entry objv (fst ka, h0 ! snd ka))"
proof -
  have "snd oh ! snd ka = take (length h0) (snd oh) ! snd ka"
    using assms(2) by simp
  then have "snd oh ! snd ka = h0 ! snd ka"
    using assms(1) by (simp add: related_def)
  then show ?thesis
    using related_merge_into [OF assms(1), of "(fst ka, h0 ! snd ka)"]
    by (simp add: merge_from_def)
qed

lemma related_foldl_merge_from:
  "related h0 oh objv \<Longrightarrow> \<forall>ka\<in>set res. snd ka < length h0 \<Longrightarrow>
   related h0 (foldl merge_from oh res) (foldl merge_entry objv (deref_all h0 res))"
proof (induction res arbitrary: oh objv)
  case Nil
  then show ?case by (simp add: deref_all_def)
next
  case (Cons ka res)
  have "related h0 (merge_from oh ka) (merge_entry objv (fst ka, h0 ! snd ka))"
    using Cons.prems by (intro related_merge_from) simp_all
  then have "related h0 (foldl merge_from (merge_from oh ka) res)
     (foldl merge_entry (merge_entry objv (fst ka, h0 ! snd ka)) (deref_all h0 res))"
    using Cons.prems by (intro Cons.IH) simp_all
  then show ?case by (simp add: deref_all_def)
qed

lemma index_entries_deref:
  "index_entries (deref_all h obj) = map (\<lambda>ia. (fst ia, h ! snd ia)) (index_entries obj)"
  by (induction obj rule: index_entries.induct) (simp_all add: deref_all_def)

lemma name_entries_deref: "name_entries (deref_all h obj) = deref_all h (name_entries obj)"
  by (induction obj rule: name_entries.induct) (simp_all add: deref_all_def)

lemma insort_key_deref:
  "insort_key fst (i, f a) (map (\<lambda>ia. (fst ia, f (snd ia))) ys) =
   map (\<lambda>ia. (fst ia, f (snd ia))) (insort_key fst (i, a) ys)"
  by (induction ys) simp_all

lemma sort_key_deref:
  "sort_key fst (map (\<lambda>ia. (fst ia, f (snd ia))) xs) =
   map (\<lambda>ia. (fst ia, f (snd ia))) (sort_key fst xs)"
proof (induction xs)
  case Nil
  then show ?case by simp
next
  case (Cons x xs)
  then show ?case using insort_key_deref [of "fst x" f "snd x"] by (simp add: sort_key_simps)
qed

lemma own_entries_deref: "own_entries (deref_all h obj) = deref_all h (own_entries obj)"
  by (simp add: own_entries_def index_entries_deref name_entries_deref sort_key_deref)
     (simp add: deref_all_def case_prod_beta)

lemma toArray_deref: "toArray (deref_all h obj) = map (\<lambda>a. h ! a) (toArray obj)"
  by (simp add: toArray_def own_entries_deref) (simp add: deref_all_def comp_def)

lemma foldl_indexBy_deref:
  "foldl (\<lambda>obj x. obj_set (seq_key x) x obj) (deref_all h obj) (map (\<lambda>a. h ! a) refs) =
   deref_all h (foldl (\<lambda>obj a. obj_set (seq_key (h ! a)) a obj) obj refs)"
proof (induction refs arbitrary: obj)
  case Nil
  then show ?case by simp
next
  case (Cons a refs)
  have "obj_set (seq_key (h ! a)) (h ! a) (deref_all h obj) =
        deref_all h (obj_set (seq_key (h ! a)) a obj)"
    unfolding deref_all_def by (rule obj_set_deref)
  then show ?case using Cons.IH by simp
qed

lemma indexBy_deref:
  "indexBy seq_key (map_option (map (\<lambda>a. h ! a)) refs) =
   deref_all h (indexBy (\<lambda>a. seq_key (h ! a)) refs)"
proof (cases refs)
  case None
  then show ?thesis by (simp add: indexBy_def deref_all_def)
next
  case (Some xs)
  then show ?thesis
    using foldl_indexBy_deref [of h "[]" xs] by (simp add: indexBy_def deref_all_def)
qed

lemma snd_set_foldl_index:
  "snd ` set (foldl (\<lambda>obj a. obj_set (f a) a obj) obj refs) \<subseteq> snd ` set obj \<union> set refs"
proof (induction refs arbitrary: obj)
  case Nil
  then show ?case by simp
next
  case (Cons a refs)
  have "snd ` set (foldl (\<lambda>obj a. obj_set (f a) a obj) (obj_set (f a) a obj) refs)
        \<subseteq> snd ` set (obj_set (f a) a obj) \<union> set refs"
    by (rule Cons.IH)
  then show ?case using snd_set_obj_set [of "f a" a obj] by auto
qed

lemma snd_set_indexBy:
  "snd ` set (indexBy f refs) \<subseteq> (case refs of None \<Rightarrow> {} | Some xs \<Rightarrow> set xs)"
  using snd_set_foldl_index [of f "[]"] by (cases refs) (simp_all add: indexBy_def)

lemma related_lodashMerge:
  assumes "valid_refs st r"
  shows "related (rs_heap st)
           (lodashMerge_refs [] (indexBy (\<lambda>a. seq_key (rs_heap st ! a)) (rs_mirror st r)) ov
              (rs_heap st))
           (lodashMerge [] (indexBy seq_key (reportActions (view st) r)) ov)"
proof -
  let ?h = "rs_heap st"
  let ?existing = "indexBy (\<lambda>a. seq_key (?h ! a)) (rs_mirror st r)"
  have "snd ` set ?existing \<subseteq> (case rs_mirror st r of None \<Rightarrow> {} | Some xs \<Rightarrow> set xs)"
    by (rule snd_set_indexBy)
  then have "\<forall>ka\<in>set ?existing. snd ka < length ?h"
    using assms by (cases "rs_mirror st r") (auto simp add: valid_refs_def list_all_iff)
  then have refs: "\<forall>ka\<in>set (own_entries ?existing). snd ka < length ?h"
    by (simp add: set_own_entries)
  have "related ?h ([], ?h) []"
    by (simp add: related_def deref_all_def)
  then have "related ?h (foldl merge_from ([], ?h) (own_entries ?existing))
               (foldl merge_entry [] (deref_all ?h (own_entries ?existing)))"
    using refs by (rule related_foldl_merge_from)
  then have "related ?h
               (foldl merge_into (foldl merge_from ([], ?h) (own_entries ?existing)) (own_entries ov))
               (foldl merge_entry (foldl merge_entry [] (deref_all ?h (own_entries ?existing)))
                  (own_entries ov))"
    by (rule related_foldl_merge_into)
  moreover have "indexBy seq_key (reportActions (view st) r) = deref_all ?h ?existing"
    by (simp add: view_def indexBy_deref)
  ultimately show ?thesis
    by (simp add: lodashMerge_refs_def lodashMerge_def own_entries_deref)
qed

lemma view_heap_extended:
  assumes "valid_refs st r" and "take (length (rs_heap st)) h = rs_heap st"
  shows "reportActions (view (st\<lparr>rs_heap := h\<rparr>)) r = reportActions (view st) r"
proof (cases "rs_mirror st r")
  case None
  then show ?thesis by (simp add: view_def)
next
  case (Some refs)
  have "map (\<lambda>a. h ! a) refs = map (\<lambda>a. rs_heap st ! a) refs"
  proof (rule map_cong [OF refl])
    fix a assume "a \<in> set refs"
    then have "a < length (rs_heap st)"
      using assms(1) Some by (simp add: valid_refs_def list_all_iff)
    then have "take (length (rs_heap st)) h ! a = h ! a" by simp
    then show "h ! a = rs_heap st ! a" using assms(2) by simp
  qed
  then show ?thesis using Some by (simp add: view_def)
qed

lemma valid_refs_heap_extended:
  "valid_refs st r \<Longrightarrow> length (rs_heap st) \<le> length h \<Longrightarrow> valid_refs (st\<lparr>rs_heap := h\<rparr>) r"
  by (cases "rs_mirror st r") (auto simp add: valid_refs_def list_all_iff)

lemma text_depends_on_report:
  "reportActions s r = reportActions s' r \<Longrightarrow>
   getLastVisibleMessageText isDel h2t fmt s r ov = getLastVisibleMessageText isDel h2t fmt s' r ov"
  by (simp add: getLastVisibleMessageText_def)

lemma action_depends_on_report:
  "reportActions s r = reportActions s' r \<Longrightarrow>
   getLastVisibleReportAction isDel s r ov = getLastVisibleReportAction isDel s' r ov"
  by (simp add: getLastVisibleReportAction_def)

lemma text_refs_refines:
  assumes "valid_refs st r"
  shows "fst (getLastVisibleMessageText_refs isDel h2t fmt st r ov) =
           getLastVisibleMessageText isDel h2t fmt (view st) r ov"
    and "reportActions (view (snd (getLastVisibleMessageText_refs isDel h2t fmt st r ov))) r =
           reportActions (view st) r"
    and "valid_refs (snd (getLastVisibleMessageText_refs isDel h2t fmt st r ov)) r"
    and "take (length (rs_heap st))
           (rs_heap (snd (getLastVisibleMessageText_refs isDel h2t fmt st r ov))) = rs_heap st"
proof -
  let ?m = "lodashMerge_refs [] (indexBy (\<lambda>a. seq_key (rs_heap st ! a)) (rs_mirror st r)) ov
              (rs_heap st)"
  have rel: "related (rs_heap st) ?m
     (lodashMerge [] (indexBy seq_key (reportActions (view st) r)) ov)"
    using assms by (rule related_lodashMerge)
  then have arr: "toArray (lodashMerge [] (indexBy seq_key (reportActions (view st) r)) ov) =
     map (\<lambda>a. snd ?m ! a) (toArray (fst ?m))"
    using toArray_deref [of "snd ?m" "fst ?m"] by (simp add: related_def)
  show "fst (getLastVisibleMessageText_refs isDel h2t fmt st r ov) =
           getLastVisibleMessageText isDel h2t fmt (view st) r ov"
    by (simp add: getLastVisibleMessageText_refs_def getLastVisibleMessageText_def Let_def arr
        findLastIndex_map)
  have frame: "take (length (rs_heap st)) (snd ?m) = rs_heap st"
    and len: "length (rs_heap st) \<le> length (snd ?m)"
    using rel by (simp_all add: related_def)
  show "reportActions (view (snd (getLastVisibleMessageText_refs isDel h2t fmt st r ov))) r =
           reportActions (view st) r"
    using view_heap_extended [OF assms frame]
    by (simp add: getLastVisibleMessageText_refs_def Let_def)
  show "valid_refs (snd (getLastVisibleMessageText_refs isDel h2t fmt st r ov)) r"
    using valid_refs_heap_extended [OF assms len]
    by (simp add: getLastVisibleMessageText_refs_def Let_def)
  show "take (length (rs_heap st))
           (rs_heap (snd (getLastVisibleMessageText_refs isDel h2t fmt st r ov))) = rs_heap st"
    using frame by (simp add: getLastVisibleMessageText_refs_def Let_def)
qed

lemma action_refs_refines:
  assumes "valid_refs st r"
  shows "map_option (\<lambda>a. rs_heap (snd (getLastVisibleReportAction_refs isDel st r ov)) ! a)
           (fst (getLastVisibleReportAction_refs isDel st r ov)) =
           getLastVisibleReportAction isDel (view st) r ov"
    and "reportActions (view (snd (getLastVisibleReportAction_refs isDel st r ov))) r =
           reportActions (view st) r"
    and "valid_refs (snd (getLastVisibleReportAction_refs isDel st r ov)) r"
    and "take (length (rs_heap st))
           (rs_heap (snd (getLastVisibleReportAction_refs isDel st r ov))) = rs_heap st"
proof -
  let ?m = "lodashMerge_refs [] (indexBy (\<lambda>a. seq_key (rs_heap st ! a)) (rs_mirror st r)) ov
              (rs_heap st)"
  have rel: "related (rs_heap st) ?m
     (lodashMerge [] (indexBy seq_key (reportActions (view st) r)) ov)"
    using assms by (rule related_lodashMerge)
  then have arr: "toArray (lodashMerge [] (indexBy seq_key (reportActions (view st) r)) ov) =
     map (\<lambda>a. snd ?m ! a) (toArray (fst ?m))"
    using toArray_deref [of "snd ?m" "fst ?m"] by (simp add: related_def)
  show "map_option (\<lambda>a. rs_heap (snd (getLastVisibleReportAction_refs isDel st r ov)) ! a)
           (fst (getLastVisibleReportAction_refs isDel st r ov)) =
           getLastVisibleReportAction isDel (view st) r ov"
    by (simp add: getLastVisibleReportAction_refs_def getLastVisibleReportAction_def Let_def arr
        findLastIndex_map at_index_map)
  have frame: "take (length (rs_heap st)) (snd ?m) = rs_heap st"
    and len: "length (rs_heap st) \<le> length (snd ?m)"
    using rel by (simp_all add: related_def)
  show "reportActions (view (snd (getLastVisibleReportAction_refs isDel st r ov))) r =
           reportActions (view st) r"
    using view_heap_extended [OF assms frame]
    by (simp add: getLastVisibleReportAction_refs_def Let_def)
  show "valid_refs (snd (getLastVisibleReportAction_refs isDel st r ov)) r"
    using valid_refs_heap_extended [OF assms len]
    by (simp add: getLastVisibleReportAction_refs_def Let_def)
  show "take (length (rs_heap st))
           (rs_heap (snd (getLastVisibleReportAction_refs isDel st r ov))) = rs_heap st"
    using frame by (simp add: getLastVisibleReportAction_refs_def Let_def)
qed

section \<open>The claims\<close>

subsection \<open>Counting deleted comments\<close>

text \<open>
  Claim C1, as amended. For every report and threshold, \<open>getDeletedCommentsCount\<close> returns
  the number of mirrored actions of the report that are \<open>ADDCOMMENT\<close>, whose sequence
  number is not at or below the threshold (it is strictly greater, or absent), and whose
  first message part has empty html (the html read as the empty string where the message,
  its first part or the html is absent). The result is 0 when the report has no mirrored
  actions, and 0 when every mirrored action is not \<open>ADDCOMMENT\<close> or has a sequence number
  at or below the threshold. Html is empty when its length is zero.
\<close>

theorem getDeletedCommentsCount_counts:
  "getDeletedCommentsCount A s r n =
     (case reportActions s r of
        None \<Rightarrow> 0
      | Some acts \<Rightarrow>
          length (filter (\<lambda>a. actionName a = Some A \<and>
                    (case sequenceNumber a of None \<Rightarrow> True | Some m \<Rightarrow> n < m) \<and>
                    get_html (first_of (message a)) = []) acts)) \<and>
   (reportActions s r = None \<longrightarrow> getDeletedCommentsCount A s r n = 0) \<and>
   ((\<forall>acts a. reportActions s r = Some acts \<and> a \<in> set acts \<longrightarrow>
        actionName a \<noteq> Some A \<or> (\<exists>m. sequenceNumber a = Some m \<and> m \<le> n)) \<longrightarrow>
      getDeletedCommentsCount A s r n = 0)"
proof (intro conjI impI)
  show eq: "getDeletedCommentsCount A s r n =
     (case reportActions s r of
        None \<Rightarrow> 0
      | Some acts \<Rightarrow>
          length (filter (\<lambda>a. actionName a = Some A \<and>
                    (case sequenceNumber a of None \<Rightarrow> True | Some m \<Rightarrow> n < m) \<and>
                    get_html (first_of (message a)) = []) acts))"
    by (simp add: getDeletedCommentsCount_def foldl_count_deleted split: option.splits)
  show "getDeletedCommentsCount A s r n = 0" if "reportActions s r = None"
    using that by (simp add: getDeletedCommentsCount_def)
  show "getDeletedCommentsCount A s r n = 0"
    if h: "\<forall>acts a. reportActions s r = Some acts \<and> a \<in> set acts \<longrightarrow>
        actionName a \<noteq> Some A \<or> (\<exists>m. sequenceNumber a = Some m \<and> m \<le> n)"
  proof (cases "reportActions s r")
    case None
    then show ?thesis by (simp add: getDeletedCommentsCount_def)
  next
    case (Some acts)
    have "filter (\<lambda>a. actionName a = Some A \<and>
                    (case sequenceNumber a of None \<Rightarrow> True | Some m \<Rightarrow> n < m) \<and>
                    get_html (first_of (message a)) = []) acts = []"
      using h Some by (fastforce simp add: filter_empty_conv)
    then show ?thesis using eq Some by simp
  qed
qed

text \<open>On the scenario's report: one deleted comment after sequence number 0, none after 3,
  and none for a report that was never mirrored.\<close>

theorem getDeletedCommentsCount_counts_witness:
  "getDeletedCommentsCount ''ADDCOMMENT'' scenario_state ''42'' 0 = 1 \<and>
   getDeletedCommentsCount ''ADDCOMMENT'' scenario_state ''42'' 3 = 0 \<and>
   getDeletedCommentsCount ''ADDCOMMENT'' scenario_state ''7'' 0 = 0"
  using getDeletedCommentsCount_counts [of "''ADDCOMMENT''" scenario_state "''42''" 0]
    getDeletedCommentsCount_counts [of "''ADDCOMMENT''" scenario_state "''42''" 3]
    getDeletedCommentsCount_counts [of "''ADDCOMMENT''" scenario_state "''7''" 0]
  by (simp add: scenario_state_def comment_def first_of_def get_html_def)

text \<open>The claim as the specification words it fails: a deleted comment without a sequence
  number is counted at every threshold, though no sequence number of it is greater than
  the threshold.\<close>

theorem getDeletedCommentsCount_unsequenced_counterexample:
  "getDeletedCommentsCount ''ADDCOMMENT'' unsequenced_state ''42'' 0 = 1 \<and>
   spec_DeletedCommentsCount ''ADDCOMMENT'' unsequenced_state ''42'' 0 = 0"
  by (simp add: getDeletedCommentsCount_def spec_DeletedCommentsCount_def spec_is_counted_def
      count_deleted_def unsequenced_state_def unsequenced_tombstone_def first_of_def
      get_html_def isEmpty_def js_le_def)

text \<open>Html that consists of white space is not empty: such a comment is not counted.\<close>

lemma getDeletedCommentsCount_blank_html:
  "getDeletedCommentsCount ''ADDCOMMENT'' blank_state ''42'' 0 = 0"
  by (simp add: getDeletedCommentsCount_def count_deleted_def blank_state_def comment_def
      first_of_def get_html_def isEmpty_def js_le_def)

text \<open>
  Claim C9. An \<open>ADDCOMMENT\<close> action with a sequence number above the threshold whose
  message is absent, or whose first message part has no html, is counted as deleted: with
  it in the mirrored log the count is one more than without it.
\<close>

theorem getDeletedCommentsCount_missing_html:
  assumes "actionName a = Some A"
    and "sequenceNumber a = Some m" and "n < m"
    and "message a = None \<or> (\<exists>p ps. message a = Some (p # ps) \<and> html p = None)"
    and "reportActions s r = Some (pre @ a # post)"
  shows "getDeletedCommentsCount A s r n =
     getDeletedCommentsCount A (s\<lparr>reportActions := (reportActions s)(r \<mapsto> pre @ post)\<rparr>) r n + 1"
proof -
  have "get_html (first_of (message a)) = []"
    using assms(4) by (auto simp add: first_of_def get_html_def)
  then have "count_deleted A n k a = Suc k" for k
    using assms(1-3) by (simp add: count_deleted_step)
  then show ?thesis
    using assms(5) by (simp add: getDeletedCommentsCount_def foldl_count_deleted)
qed

theorem getDeletedCommentsCount_missing_html_witness:
  "message bare_comment = None \<and>
   getDeletedCommentsCount ''ADDCOMMENT'' bare_state ''42'' 0 = 1"
proof -
  have name: "actionName bare_comment = Some ''ADDCOMMENT''"
    and seq: "sequenceNumber bare_comment = Some 5"
    and absent: "message bare_comment = None"
    by (simp_all add: bare_comment_def)
  have above: "(0::nat) < 5" by simp
  have missing: "message bare_comment = None \<or>
      (\<exists>p ps. message bare_comment = Some (p # ps) \<and> html p = None)"
    using absent by simp
  have log: "reportActions bare_state ''42'' = Some ([comment 1 ''hi''] @ bare_comment # [])"
    by (simp add: bare_state_def)
  have without: "getDeletedCommentsCount ''ADDCOMMENT''
      (bare_state\<lparr>reportActions := (reportActions bare_state)(''42'' \<mapsto> [comment 1 ''hi''] @ [])\<rparr>)
      ''42'' 0 = 0"
    by (simp add: getDeletedCommentsCount_def count_deleted_def comment_def first_of_def
        get_html_def isEmpty_def js_le_def)
  show ?thesis
    using getDeletedCommentsCount_missing_html [OF name seq above missing log] without absent
    by simp
qed

subsection \<open>The subscription callback and the sequence index\<close>

text \<open>
  Claim C3, as amended. After the callback delivers, for a report, an action collection
  whose last non-loading action in log order (scanning from the end and skipping the
  actions that are loading) has a sequence number, the index entry of that report is that
  sequence number.
\<close>

theorem callback_sets_index:
  assumes "k \<noteq> []"
    and "toArray coll = pre @ a # post"
    and "\<not> truthy (isLoading a)"
    and "\<forall>b\<in>set post. truthy (isLoading b)"
    and "sequenceNumber a = Some n"
  shows "reportActionsMaxSequenceNumbers (connect_callback ex (Some coll) (Some k) s) (ex k) = Some n"
proof -
  have "findLastIndex (pre @ a # post) (\<lambda>action. \<not> truthy (isLoading action)) = int (length pre)"
    using assms(3,4) by (intro findLastIndex_last) simp_all
  then show ?thesis
    using assms(1,2,5) by (simp add: connect_callback_def Let_def at_index_length)
qed

text \<open>A delivery of two comments and a placeholder sets the entry to 2.\<close>

theorem callback_sets_index_witness:
  "reportActionsMaxSequenceNumbers
     (connect_callback example_extract (Some delivery_committed) (Some ''reportActions_42'')
        seven_state) ''42'' = Some 2"
proof -
  have k: "''reportActions_42'' \<noteq> []" by simp
  have a: "\<not> truthy (isLoading (comment 2 []))" by (simp add: comment_def truthy_def)
  have post: "\<forall>b\<in>set [placeholder 3]. truthy (isLoading b)"
    by (simp add: placeholder_def truthy_def)
  have n: "sequenceNumber (comment 2 []) = Some 2" by (simp add: comment_def)
  show ?thesis
    using callback_sets_index [OF k toArray_delivery_committed a post n,
        of example_extract seven_state]
    by (simp add: example_extract_def)
qed

text \<open>The claim as the specification words it fails: the delivered collection contains a
  non-loading action with a sequence number, its last non-loading action has none, and
  the index entry stays 7, which is the sequence number of no delivered action.\<close>

theorem callback_sets_index_counterexample:
  "spec_has_sequenced_non_loading (toArray delivery_unsequenced) \<and>
   reportActionsMaxSequenceNumbers
     (connect_callback example_extract (Some delivery_unsequenced) (Some ''reportActions_42'')
        seven_state) ''42'' \<noteq>
     spec_last_non_loading_sequence (toArray delivery_unsequenced) \<and>
   spec_last_non_loading_sequence (toArray delivery_unsequenced) = None \<and>
   reportActionsMaxSequenceNumbers
     (connect_callback example_extract (Some delivery_unsequenced) (Some ''reportActions_42'')
        seven_state) ''42'' = Some 7"
  by (simp add: toArray_delivery_unsequenced spec_has_sequenced_non_loading_def
      spec_last_non_loading_sequence_def connect_callback_def Let_def findLastIndex_def
      at_index_def truthy_def comment_def unsequenced_tombstone_def seven_state_def
      example_extract_def)

text \<open>
  Claim C6. A delivery, for a report, of a collection containing only loading actions,
  or of one whose last non-loading action has no sequence number, leaves the sequence
  index as it was: no entry of it is changed or cleared.
\<close>

theorem callback_keeps_index:
  assumes "k \<noteq> []"
    and "(\<forall>b\<in>set (toArray coll). truthy (isLoading b)) \<or>
         (\<exists>pre a post. toArray coll = pre @ a # post \<and> \<not> truthy (isLoading a) \<and>
            (\<forall>b\<in>set post. truthy (isLoading b)) \<and> sequenceNumber a = None)"
  shows "reportActionsMaxSequenceNumbers (connect_callback ex (Some coll) (Some k) s) =
         reportActionsMaxSequenceNumbers s"
  using assms(2)
proof
  assume "\<forall>b\<in>set (toArray coll). truthy (isLoading b)"
  then have "findLastIndex (toArray coll) (\<lambda>action. \<not> truthy (isLoading action)) = - 1"
    by (intro findLastIndex_none) simp
  then show ?thesis
    using assms(1) by (simp add: connect_callback_def Let_def at_index_minus_one)
next
  assume "\<exists>pre a post. toArray coll = pre @ a # post \<and> \<not> truthy (isLoading a) \<and>
            (\<forall>b\<in>set post. truthy (isLoading b)) \<and> sequenceNumber a = None"
  then obtain pre a post where d: "toArray coll = pre @ a # post" "\<not> truthy (isLoading a)"
    "\<forall>b\<in>set post. truthy (isLoading b)" "sequenceNumber a = None" by blast
  have "findLastIndex (pre @ a # post) (\<lambda>action. \<not> truthy (isLoading action)) = int (length pre)"
    using d(2,3) by (intro findLastIndex_last) simp_all
  then show ?thesis
    using assms(1) d(1,4) by (simp add: connect_callback_def Let_def at_index_length)
qed

text \<open>Both kinds of delivery leave the entry 7 of the report.\<close>

theorem callback_keeps_index_witness:
  "reportActionsMaxSequenceNumbers
     (connect_callback example_extract (Some delivery_loading) (Some ''reportActions_42'')
        seven_state) ''42'' = Some 7 \<and>
   reportActionsMaxSequenceNumbers
     (connect_callback example_extract (Some delivery_unsequenced) (Some ''reportActions_42'')
        seven_state) ''42'' = Some 7"
proof -
  have k: "''reportActions_42'' \<noteq> []" by simp
  have l: "(\<forall>b\<in>set (toArray delivery_loading). truthy (isLoading b)) \<or>
         (\<exists>pre a post. toArray delivery_loading = pre @ a # post \<and> \<not> truthy (isLoading a) \<and>
            (\<forall>b\<in>set post. truthy (isLoading b)) \<and> sequenceNumber a = None)"
    by (simp add: toArray_delivery_loading placeholder_def truthy_def)
  have "\<not> truthy (isLoading unsequenced_tombstone) \<and> sequenceNumber unsequenced_tombstone = None"
    by (simp add: unsequenced_tombstone_def truthy_def)
  then have "toArray delivery_unsequenced = [comment 1 ''hi''] @ unsequenced_tombstone # [] \<and>
      \<not> truthy (isLoading unsequenced_tombstone) \<and>
      (\<forall>b\<in>set []. truthy (isLoading b)) \<and> sequenceNumber unsequenced_tombstone = None"
    using toArray_delivery_unsequenced by simp
  then have u: "(\<forall>b\<in>set (toArray delivery_unsequenced). truthy (isLoading b)) \<or>
         (\<exists>pre a post. toArray delivery_unsequenced = pre @ a # post \<and> \<not> truthy (isLoading a) \<and>
            (\<forall>b\<in>set post. truthy (isLoading b)) \<and> sequenceNumber a = None)"
    by blast
  show ?thesis
    using callback_keeps_index [OF k l, of example_extract seven_state]
      callback_keeps_index [OF k u, of example_extract seven_state]
    by (simp add: seven_state_def)
qed

text \<open>
  Claim C10. Once the sequence index holds an entry for a report, every sequence of
  operations of the module (deliveries to the callback, the three queries, the two
  mutations) leaves an entry for that report: the callback only assigns entries and
  nothing else writes the index.
\<close>

theorem sequence_index_never_loses:
  "reportActionsMaxSequenceNumbers s r = Some n \<Longrightarrow>
   \<exists>m. reportActionsMaxSequenceNumbers (run e xs s) r = Some m"
proof (induction xs arbitrary: s n)
  case Nil
  then show ?case by simp
next
  case (Cons x xs)
  obtain m where "reportActionsMaxSequenceNumbers (snd (step e x s)) r = Some m"
    using step_keeps_entries [OF Cons.prems] by blast
  then show ?case using Cons.IH by simp
qed

text \<open>A session of every kind of operation, with deliveries that keep the entry, a
  delivery without a payload, and a final delivery that overwrites the entry.\<close>

theorem sequence_index_never_loses_witness:
  "reportActionsMaxSequenceNumbers seven_state ''42'' = Some 7 \<and>
   (\<exists>m. reportActionsMaxSequenceNumbers (run example_env example_session seven_state) ''42'' =
      Some m) \<and>
   reportActionsMaxSequenceNumbers (run example_env example_session seven_state) ''42'' = Some 2"
proof -
  have before: "reportActionsMaxSequenceNumbers seven_state ''42'' = Some 7"
    by (simp add: seven_state_def)
  have after: "reportActionsMaxSequenceNumbers (run example_env example_session seven_state) ''42'' =
      Some 2"
    by code_simp
  show ?thesis
    using sequence_index_never_loses [OF before, of example_env example_session] before after
    by simp
qed

subsection \<open>The last visible message and action\<close>

text \<open>
  Claim C2. \<open>getLastVisibleMessageText\<close> merges the patch onto the mirrored actions keyed
  by sequence number: the merged sequence holds, for every key of the mirror or of the
  patch, the mirrored action with the patch's properties laid over it, and, the keys being
  array indices, holds them in ascending order of key. It scans that sequence from the end
  for the last action the is-deleted predicate rejects, which is the merged action of the
  greatest key that is not deleted, takes the html of that action's first message part
  (the empty string if there is none), converts it and formats it. When every merged
  action is deleted, or there is none, the converter receives the empty string.
\<close>

theorem getLastVisibleMessageText_result:
  assumes "actions = toArray (lodashMerge [] (indexBy seq_key (reportActions s r)) ov)"
  shows "(distinct (map fst ov) \<longrightarrow>
            set actions = {a. \<exists>k. spec_merged_at s r ov k = Some a}) \<and>
         (distinct (map fst ov) \<and> keys_are_array_indices s r ov \<longrightarrow>
            (\<exists>ks. sorted ks \<and> distinct ks \<and>
               set ks = {k. spec_merged_at s r ov (Idx k) \<noteq> None} \<and>
               map Some actions = map (\<lambda>k. spec_merged_at s r ov (Idx k)) ks)) \<and>
         (distinct (map fst ov) \<and> keys_are_array_indices s r ov \<longrightarrow>
            (\<forall>k a. spec_merged_at s r ov (Idx k) = Some a \<and> \<not> isDel a \<and>
                 (\<forall>k' b. k < k' \<and> spec_merged_at s r ov (Idx k') = Some b \<longrightarrow> isDel b) \<longrightarrow>
               getLastVisibleMessageText isDel h2t fmt s r ov =
                 fmt (h2t (get_html (first_of (message a)))))) \<and>
         (distinct (map fst ov) \<and> keys_are_array_indices s r ov \<and>
            (\<forall>k b. spec_merged_at s r ov (Idx k) = Some b \<longrightarrow> isDel b) \<longrightarrow>
            getLastVisibleMessageText isDel h2t fmt s r ov = fmt (h2t [])) \<and>
         (\<forall>pre a post. actions = pre @ a # post \<and> \<not> isDel a \<and> (\<forall>b\<in>set post. isDel b) \<longrightarrow>
            getLastVisibleMessageText isDel h2t fmt s r ov =
              fmt (h2t (get_html (first_of (message a))))) \<and>
         ((\<forall>b\<in>set actions. isDel b) \<longrightarrow>
            getLastVisibleMessageText isDel h2t fmt s r ov = fmt (h2t []))"
proof (intro conjI allI impI)
  assume "distinct (map fst ov)"
  then show "set actions = {a. \<exists>k. spec_merged_at s r ov k = Some a}"
    unfolding assms by (rule set_merged)
next
  assume "distinct (map fst ov) \<and> keys_are_array_indices s r ov"
  then show "\<exists>ks. sorted ks \<and> distinct ks \<and>
               set ks = {k. spec_merged_at s r ov (Idx k) \<noteq> None} \<and>
               map Some actions = map (\<lambda>k. spec_merged_at s r ov (Idx k)) ks"
    unfolding assms using merged_in_key_order by blast
next
  fix k a
  assume keys: "distinct (map fst ov) \<and> keys_are_array_indices s r ov"
    and h: "spec_merged_at s r ov (Idx k) = Some a \<and> \<not> isDel a \<and>
            (\<forall>k' b. k < k' \<and> spec_merged_at s r ov (Idx k') = Some b \<longrightarrow> isDel b)"
  show "getLastVisibleMessageText isDel h2t fmt s r ov =
          fmt (h2t (get_html (first_of (message a))))"
  proof (rule text_of_greatest_visible_key)
    show "distinct (map fst ov)" and "keys_are_array_indices s r ov" using keys by simp_all
    show "spec_merged_at s r ov (Idx k) = Some a" and "\<not> isDel a" using h by simp_all
    show "\<forall>k' b. k < k' \<and> spec_merged_at s r ov (Idx k') = Some b \<longrightarrow> isDel b"
      using h by simp
  qed
next
  assume "distinct (map fst ov) \<and> keys_are_array_indices s r ov \<and>
            (\<forall>k b. spec_merged_at s r ov (Idx k) = Some b \<longrightarrow> isDel b)"
  then show "getLastVisibleMessageText isDel h2t fmt s r ov = fmt (h2t [])"
    by (intro text_of_no_visible_key) simp_all
next
  fix pre a post
  assume "actions = pre @ a # post \<and> \<not> isDel a \<and> (\<forall>b\<in>set post. isDel b)"
  then have "toArray (lodashMerge [] (indexBy seq_key (reportActions s r)) ov) = pre @ a # post"
    and "\<not> isDel a" and "\<forall>b\<in>set post. isDel b"
    unfolding assms by simp_all
  then show "getLastVisibleMessageText isDel h2t fmt s r ov =
              fmt (h2t (get_html (first_of (message a))))"
    by (rule text_of_last_visible)
next
  assume "\<forall>b\<in>set actions. isDel b"
  then show "getLastVisibleMessageText isDel h2t fmt s r ov = fmt (h2t [])"
    unfolding assms by (rule text_of_none_visible)
qed

text \<open>Four reports. A report with comments 1 and 5 under a patch that adds comment 3: the
  merged sequence is 1, 3, 5 and the text is that of comment 5, the greatest key. A
  report whose comment 5 has two parts, under a patch that renames it and empties its
  first part: the patch overrides the name and the first part, the sequence number and
  the second part stay, and the text is that of comment 1. The scenario's report under a
  patch that empties the third comment: the text is that of the first. A report without
  actions gives the empty text.\<close>

theorem getLastVisibleMessageText_result_witness:
  "toArray (lodashMerge [] (indexBy seq_key (reportActions gap_state ''42'')) insert_third) =
     [comment 1 ''one'', comment 3 ''three'', comment 5 ''five''] \<and>
   getLastVisibleMessageText example_isDeletedAction id (take 100) gap_state ''42''
     insert_third = ''five'' \<and>
   toArray (lodashMerge [] (indexBy seq_key (reportActions two_part_state ''42'')) rename_fifth) =
     [comment 1 ''one'',
      \<lparr>sequenceNumber = Some 5, actionName = Some ''RENAMED'',
        message = Some [\<lparr>html = Some []\<rparr>, \<lparr>html = Some ''more''\<rparr>],
        pendingAction = None, errors = None, isLoading = None\<rparr>] \<and>
   getLastVisibleMessageText example_isDeletedAction id (take 100) two_part_state ''42''
     rename_fifth = ''one'' \<and>
   toArray (lodashMerge [] (indexBy seq_key (reportActions scenario_state ''42'')) delete_third) =
     [comment 1 ''hi'', comment 2 [], comment 3 []] \<and>
   getLastVisibleMessageText example_isDeletedAction id (take 100) scenario_state ''42''
     delete_third = ''hi'' \<and>
   getLastVisibleMessageText example_isDeletedAction id (take 100) scenario_state ''7'' [] = []"
proof -
  let ?gap = "toArray (lodashMerge [] (indexBy seq_key (reportActions gap_state ''42''))
     insert_third)"
  let ?renamed = "\<lparr>sequenceNumber = Some 5, actionName = Some ''RENAMED'',
        message = Some [\<lparr>html = Some []\<rparr>, \<lparr>html = Some ''more''\<rparr>],
        pendingAction = None, errors = None, isLoading = None\<rparr>"
  let ?two = "toArray (lodashMerge [] (indexBy seq_key (reportActions two_part_state ''42''))
     rename_fifth)"
  let ?merged = "toArray (lodashMerge [] (indexBy seq_key (reportActions scenario_state ''42''))
     delete_third)"
  let ?none = "toArray (lodashMerge [] (indexBy seq_key (reportActions scenario_state ''7'')) [])"
  have gap: "?gap = [comment 1 ''one'', comment 3 ''three'', comment 5 ''five'']"
    by code_simp
  have gap_keys: "distinct (map fst insert_third) \<and> keys_are_array_indices gap_state ''42''
      insert_third"
    by code_simp
  have fifth: "spec_merged_at gap_state ''42'' insert_third (Idx 5) = Some (comment 5 ''five'')"
    by code_simp
  have fifth_visible: "\<not> example_isDeletedAction (comment 5 ''five'')"
    by code_simp
  have fifth_html: "get_html (first_of (message (comment 5 ''five''))) = ''five''"
    by code_simp
  have fifth_last: "\<forall>k' b. 5 < k' \<and> spec_merged_at gap_state ''42'' insert_third (Idx k') = Some b
      \<longrightarrow> example_isDeletedAction b"
    by (auto simp add: spec_merged_at_def spec_existing_at_def gap_state_def insert_third_def
        seq_key_def comment_def split: if_splits)
  have "getLastVisibleMessageText example_isDeletedAction id (take 100) gap_state ''42''
     insert_third = take 100 (id (get_html (first_of (message (comment 5 ''five'')))))"
    using getLastVisibleMessageText_result [OF refl, where isDel = example_isDeletedAction
        and s = gap_state and r = "''42''" and ov = insert_third and ?h2t.0 = id
        and fmt = "take 100"] gap_keys fifth fifth_visible fifth_last
    by blast
  then have gap_text: "getLastVisibleMessageText example_isDeletedAction id (take 100) gap_state
      ''42'' insert_third = ''five''"
    using fifth_html by simp
  have two: "?two = [comment 1 ''one'', ?renamed]"
    by code_simp
  have one_visible: "\<not> example_isDeletedAction (comment 1 ''one'')"
    by code_simp
  have renamed_deleted: "\<forall>b\<in>set [?renamed]. example_isDeletedAction b"
    by code_simp
  have one_html: "get_html (first_of (message (comment 1 ''one''))) = ''one''"
    by code_simp
  have two_split: "?two = [] @ comment 1 ''one'' # [?renamed]"
    using two by simp
  have "getLastVisibleMessageText example_isDeletedAction id (take 100) two_part_state ''42''
     rename_fifth = take 100 (id (get_html (first_of (message (comment 1 ''one'')))))"
    using getLastVisibleMessageText_result [OF refl, where isDel = example_isDeletedAction
        and s = two_part_state and r = "''42''" and ov = rename_fifth and ?h2t.0 = id
        and fmt = "take 100"] two_split one_visible renamed_deleted
    by blast
  then have two_text: "getLastVisibleMessageText example_isDeletedAction id (take 100)
      two_part_state ''42'' rename_fifth = ''one''"
    using one_html by simp
  have merged: "?merged = [comment 1 ''hi'', comment 2 [], comment 3 []]"
    by code_simp
  have visible: "\<not> example_isDeletedAction (comment 1 ''hi'')"
    by code_simp
  have deleted: "\<forall>b\<in>set [comment 2 [], comment 3 []]. example_isDeletedAction b"
    by code_simp
  have html: "get_html (first_of (message (comment 1 ''hi''))) = ''hi''"
    by code_simp
  have none: "\<forall>b\<in>set ?none. example_isDeletedAction b"
    by code_simp
  have split: "?merged = [] @ comment 1 ''hi'' # [comment 2 [], comment 3 []]"
    using merged by simp
  have "getLastVisibleMessageText example_isDeletedAction id (take 100) scenario_state ''42''
     delete_third = take 100 (id (get_html (first_of (message (comment 1 ''hi'')))))"
    using getLastVisibleMessageText_result [OF refl, where isDel = example_isDeletedAction
        and s = scenario_state and r = "''42''" and ov = delete_third and ?h2t.0 = id
        and fmt = "take 100"] split visible deleted
    by blast
  then have scenario_text: "getLastVisibleMessageText example_isDeletedAction id (take 100)
      scenario_state ''42'' delete_third = ''hi''"
    using html by simp
  have "getLastVisibleMessageText example_isDeletedAction id (take 100) scenario_state
     ''7'' [] = take 100 (id [])"
    using getLastVisibleMessageText_result [OF refl, where isDel = example_isDeletedAction
        and s = scenario_state and r = "''7''" and ov = "[]" and ?h2t.0 = id
        and fmt = "take 100"] none
    by blast
  then have empty_text: "getLastVisibleMessageText example_isDeletedAction id (take 100)
      scenario_state ''7'' [] = []"
    by simp
  show ?thesis
    using gap gap_text two two_text merged scenario_text empty_text by blast
qed

text \<open>Sequence numbers that are not array indices keep their creation order: of the
  actions 4294967297 and 4294967296, mirrored in this order, the second is the last.\<close>

lemma large_sequence_numbers_keep_creation_order:
  "getLastVisibleMessageText example_isDeletedAction id (take 100) large_state ''42'' [] = ''B''"
  by (simp add: getLastVisibleMessageText_def large_state_def indexBy_def seq_key_def
      comment_def lodashMerge_def own_entries_def is_array_index_def merge_entry_def
      toArray_def findLastIndex_def example_isDeletedAction_def get_message_html_def
      at_index_def get_html_def Let_def)



text \<open>
  Claim C7. A patch passed to \<open>getLastVisibleMessageText\<close> or to
  \<open>getLastVisibleReportAction\<close> never changes the mirrored log: after the query, the
  mirror's arrays and the index are the same, every object that existed before the query
  is unchanged (the merge writes only to objects it has created), and the same query
  called next without a patch returns what the mirror before the first call determines.
\<close>

theorem overlay_never_mutates_mirror:
  assumes "valid_refs st r"
  shows "(let st1 = snd (getLastVisibleMessageText_refs isDel h2t fmt st r ov) in
            rs_mirror st1 = rs_mirror st \<and> rs_index st1 = rs_index st \<and>
            take (length (rs_heap st)) (rs_heap st1) = rs_heap st \<and>
            fst (getLastVisibleMessageText_refs isDel h2t fmt st1 r []) =
              getLastVisibleMessageText isDel h2t fmt (view st) r []) \<and>
         (let st1 = snd (getLastVisibleReportAction_refs isDel st r ov);
              res = getLastVisibleReportAction_refs isDel st1 r [] in
            rs_mirror st1 = rs_mirror st \<and> rs_index st1 = rs_index st \<and>
            take (length (rs_heap st)) (rs_heap st1) = rs_heap st \<and>
            map_option (\<lambda>a. rs_heap (snd res) ! a) (fst res) =
              getLastVisibleReportAction isDel (view st) r [])"
proof -
  let ?t1 = "snd (getLastVisibleMessageText_refs isDel h2t fmt st r ov)"
  let ?a1 = "snd (getLastVisibleReportAction_refs isDel st r ov)"
  have "fst (getLastVisibleMessageText_refs isDel h2t fmt ?t1 r []) =
          getLastVisibleMessageText isDel h2t fmt (view ?t1) r []"
    using text_refs_refines(3) [OF assms] by (rule text_refs_refines(1))
  moreover have "reportActions (view ?t1) r = reportActions (view st) r"
    using assms by (rule text_refs_refines(2))
  ultimately have t_eq: "fst (getLastVisibleMessageText_refs isDel h2t fmt ?t1 r []) =
          getLastVisibleMessageText isDel h2t fmt (view st) r []"
    using text_depends_on_report by metis
  have t_heap: "take (length (rs_heap st)) (rs_heap ?t1) = rs_heap st"
    using assms by (rule text_refs_refines(4))
  have t_frame: "rs_mirror ?t1 = rs_mirror st \<and> rs_index ?t1 = rs_index st"
    by (simp add: getLastVisibleMessageText_refs_def Let_def)
  have "map_option (\<lambda>a. rs_heap (snd (getLastVisibleReportAction_refs isDel ?a1 r [])) ! a)
          (fst (getLastVisibleReportAction_refs isDel ?a1 r [])) =
          getLastVisibleReportAction isDel (view ?a1) r []"
    using action_refs_refines(3) [OF assms] by (rule action_refs_refines(1))
  moreover have "reportActions (view ?a1) r = reportActions (view st) r"
    using assms by (rule action_refs_refines(2))
  ultimately have a_eq:
    "map_option (\<lambda>a. rs_heap (snd (getLastVisibleReportAction_refs isDel ?a1 r [])) ! a)
          (fst (getLastVisibleReportAction_refs isDel ?a1 r [])) =
          getLastVisibleReportAction isDel (view st) r []"
    using action_depends_on_report by metis
  have a_heap: "take (length (rs_heap st)) (rs_heap ?a1) = rs_heap st"
    using assms by (rule action_refs_refines(4))
  have a_frame: "rs_mirror ?a1 = rs_mirror st \<and> rs_index ?a1 = rs_index st"
    by (simp add: getLastVisibleReportAction_refs_def Let_def)
  show ?thesis
    using t_eq t_heap t_frame a_eq a_heap a_frame by (simp add: Let_def)
qed

text \<open>On the scenario's report: with the patch that empties the third comment the text
  is that of the first comment; the query without a patch, called next, gives the text
  of the third comment, and the three mirrored objects are as they were.\<close>

theorem overlay_never_mutates_mirror_witness:
  "valid_refs scenario_refs ''42'' \<and>
   fst (getLastVisibleMessageText_refs example_isDeletedAction id (take 100) scenario_refs ''42''
     delete_third) = ''hi'' \<and>
   fst (getLastVisibleMessageText_refs example_isDeletedAction id (take 100)
     (snd (getLastVisibleMessageText_refs example_isDeletedAction id (take 100) scenario_refs
        ''42'' delete_third)) ''42'' []) = ''bye'' \<and>
   take (length (rs_heap scenario_refs))
     (rs_heap (snd (getLastVisibleMessageText_refs example_isDeletedAction id (take 100)
        scenario_refs ''42'' delete_third))) = rs_heap scenario_refs"
proof -
  let ?st1 = "snd (getLastVisibleMessageText_refs example_isDeletedAction id (take 100)
     scenario_refs ''42'' delete_third)"
  have valid: "valid_refs scenario_refs ''42''"
    by code_simp
  have first: "fst (getLastVisibleMessageText_refs example_isDeletedAction id (take 100)
      scenario_refs ''42'' delete_third) = ''hi''"
    by code_simp
  have plain: "getLastVisibleMessageText example_isDeletedAction id (take 100)
      (view scenario_refs) ''42'' [] = ''bye''"
    by code_simp
  have both: "take (length (rs_heap scenario_refs)) (rs_heap ?st1) = rs_heap scenario_refs \<and>
      fst (getLastVisibleMessageText_refs example_isDeletedAction id (take 100) ?st1 ''42'' []) =
        getLastVisibleMessageText example_isDeletedAction id (take 100) (view scenario_refs)
          ''42'' []"
    using overlay_never_mutates_mirror [OF valid, where isDel = example_isDeletedAction
        and ?h2t.0 = id and fmt = "take 100" and ov = delete_third]
    unfolding Let_def by blast
  then have "fst (getLastVisibleMessageText_refs example_isDeletedAction id (take 100) ?st1
      ''42'' []) = ''bye''"
    using plain by simp
  then show ?thesis
    using valid first both by blast
qed

subsection \<open>The mutations\<close>

text \<open>
  Claim C4. With the pending action equal to \<open>ADD\<close>, \<open>deleteOptimisticReportAction\<close>
  issues one merge patch that maps the sequence number to \<^verbatim>\<open>null\<close>, which removes that
  entry from the stored collection and leaves the others. With any other pending action
  it issues one merge patch that sets the \<open>pendingAction\<close> and \<open>errors\<close> of that entry to
  \<^verbatim>\<open>null\<close>: the entry stays, with these two properties cleared and its others kept.
\<close>

theorem deleteOptimisticReportAction_patches:
  "(pending = Some (Val ADD) \<longrightarrow>
      deleteOptimisticReportAction P ADD r n pending =
        [OnyxMerge (P @ r) [(Idx n, PNull)]] \<and>
      map_of (onyx_merge coll [(Idx n, PNull)]) = (map_of coll)(Idx n := None)) \<and>
   (pending \<noteq> Some (Val ADD) \<longrightarrow>
      deleteOptimisticReportAction P ADD r n pending =
        [OnyxMerge (P @ r)
           [(Idx n, PAction \<lparr>sequenceNumber = None, actionName = None, message = None,
               pendingAction = Some Null, errors = Some Null, isLoading = None\<rparr>)]] \<and>
      map_of (onyx_merge coll
           [(Idx n, PAction \<lparr>sequenceNumber = None, actionName = None, message = None,
               pendingAction = Some Null, errors = Some Null, isLoading = None\<rparr>)]) =
        (map_of coll)(Idx n \<mapsto>
           (case map_of coll (Idx n) of
              None \<Rightarrow> \<lparr>sequenceNumber = None, actionName = None, message = None,
                 pendingAction = Some Null, errors = Some Null, isLoading = None\<rparr>
            | Some d \<Rightarrow> d\<lparr>pendingAction := Some Null, errors := Some Null\<rparr>)))"
proof -
  have p: "\<lparr>sequenceNumber = None, actionName = None, message = None,
       pendingAction = Some Null, errors = Some Null, isLoading = None\<rparr> =
     no_fields\<lparr>pendingAction := Some Null, errors := Some Null\<rparr>"
    by (simp add: no_fields_def)
  show ?thesis
    unfolding p
    by (simp add: deleteOptimisticReportAction_def onyx_merge_null onyx_merge_action
        merge_clear_pending cong: option.case_cong)
qed

text \<open>On a stored collection with entries 2 and 3: deleting the optimistic action 3 that
  was pending as an addition removes entry 3; deleting it when it was pending as an update
  keeps entry 3, cleared. Entry 2 stays in both cases.\<close>

theorem deleteOptimisticReportAction_patches_witness:
  "deleteOptimisticReportAction ''reportActions_'' ''add'' ''42'' 3 (Some (Val ''add'')) =
     [OnyxMerge ''reportActions_42'' [(Idx 3, PNull)]] \<and>
   map_of (onyx_merge stored_collection [(Idx 3, PNull)]) (Idx 3) = None \<and>
   map_of (onyx_merge stored_collection [(Idx 3, PNull)]) (Idx 2) = Some (comment 2 ''two'') \<and>
   map_of (onyx_merge stored_collection
        [(Idx 3, PAction \<lparr>sequenceNumber = None, actionName = None, message = None,
            pendingAction = Some Null, errors = Some Null, isLoading = None\<rparr>)]) (Idx 3) =
     Some ((comment 3 ''three'')\<lparr>pendingAction := Some Null, errors := Some Null\<rparr>)"
proof -
  have add: "Some (Val ''add'') = Some (Val ''add'')"
    by simp
  have other: "Some (Val ''update'') \<noteq> Some (Val ''add'')"
    by simp
  have two: "map_of stored_collection (Idx 2) = Some (comment 2 ''two'')"
    by (simp add: stored_collection_def)
  have three: "map_of stored_collection (Idx 3) =
      Some ((comment 3 ''three'')\<lparr>pendingAction := Some (Val ''update''),
                                  errors := Some (Val ''failed'')\<rparr>)"
    by (simp add: stored_collection_def)
  have removed: "deleteOptimisticReportAction ''reportActions_'' ''add'' ''42'' 3
        (Some (Val ''add'')) = [OnyxMerge (''reportActions_'' @ ''42'') [(Idx 3, PNull)]] \<and>
      map_of (onyx_merge stored_collection [(Idx 3, PNull)]) =
        (map_of stored_collection)(Idx 3 := None)"
    using deleteOptimisticReportAction_patches [where pending = "Some (Val ''add'')"
        and ADD = "''add''" and P = "''reportActions_''" and r = "''42''" and n = 3
        and coll = stored_collection] add
    by blast
  have cleared: "map_of (onyx_merge stored_collection
        [(Idx 3, PAction \<lparr>sequenceNumber = None, actionName = None, message = None,
            pendingAction = Some Null, errors = Some Null, isLoading = None\<rparr>)]) =
      (map_of stored_collection)(Idx 3 \<mapsto>
         (case map_of stored_collection (Idx 3) of
            None \<Rightarrow> \<lparr>sequenceNumber = None, actionName = None, message = None,
               pendingAction = Some Null, errors = Some Null, isLoading = None\<rparr>
          | Some d \<Rightarrow> d\<lparr>pendingAction := Some Null, errors := Some Null\<rparr>))"
    using deleteOptimisticReportAction_patches [where pending = "Some (Val ''update'')"
        and ADD = "''add''" and P = "''reportActions_''" and r = "''42''" and n = 3
        and coll = stored_collection] other
    by blast
  show ?thesis
    using removed cleared two three by simp
qed

text \<open>
  Claim C8. \<open>updateReportActionMessage\<close> issues exactly one store call: a merge, under
  the report's key, of a patch whose only entry is the given sequence number, mapped to a
  partial action whose only property is \<open>message\<close>, the one-element sequence of the given
  message. As an operation of the module it leaves the module's state as it was.
\<close>

theorem updateReportActionMessage_patch:
  "updateReportActionMessage P r n msg =
     [OnyxMerge (P @ r)
        [(Idx n, PAction \<lparr>sequenceNumber = None, actionName = None, message = Some [msg],
            pendingAction = None, errors = None, isLoading = None\<rparr>)]] \<and>
   step e (CallUpdateReportActionMessage r n msg) s =
     (Issued [OnyxMerge (env_REPORT_ACTIONS e @ r)
        [(Idx n, PAction \<lparr>sequenceNumber = None, actionName = None, message = Some [msg],
            pendingAction = None, errors = None, isLoading = None\<rparr>)]], s)"
  by (simp add: updateReportActionMessage_def no_fields_def)

theorem updateReportActionMessage_patch_witness:
  "updateReportActionMessage ''reportActions_'' ''42'' 2 \<lparr>html = Some ''edited''\<rparr> =
     [OnyxMerge ''reportActions_42''
        [(Idx 2, PAction \<lparr>sequenceNumber = None, actionName = None,
            message = Some [\<lparr>html = Some ''edited''\<rparr>],
            pendingAction = None, errors = None, isLoading = None\<rparr>)]]"
  using updateReportActionMessage_patch [of "''reportActions_''" "''42''" 2
      "\<lparr>html = Some ''edited''\<rparr>" example_env scenario_state]
  by simp

end
